theory Spec2Isabelle
  imports Complex_Main
begin

section \<open>JavaScript objects used as dictionaries\<close>

text \<open>
  The store keeps its articles, chunks and embeddings in plain objects
  (\<^verbatim>\<open>Record<K, V>\<close>).  An object is modelled as an association list in
  enumeration order: assigning to an existing key replaces the value where it stands,
  assigning to a fresh key appends, \<^verbatim>\<open>delete\<close> drops the key.  (For
  integer-like keys JavaScript enumerates in ascending numeric order instead of
  insertion order; no statement below depends on the order of enumeration.)
\<close>

type_synonym ('k, 'v) jsobject = "('k \<times> 'v) list"

definition obj_get :: "('k, 'v) jsobject \<Rightarrow> 'k \<Rightarrow> 'v option" where
  "obj_get m k = map_of m k"

fun obj_set :: "('k, 'v) jsobject \<Rightarrow> 'k \<Rightarrow> 'v \<Rightarrow> ('k, 'v) jsobject" where
  "obj_set [] k v = [(k, v)]"
| "obj_set ((k', v') # m) k v =
     (if k' = k then (k, v) # m else (k', v') # obj_set m k v)"

definition obj_delete :: "('k, 'v) jsobject \<Rightarrow> 'k \<Rightarrow> ('k, 'v) jsobject" where
  "obj_delete m k = filter (\<lambda>p. fst p \<noteq> k) m"

definition obj_keys :: "('k, 'v) jsobject \<Rightarrow> 'k list" where
  "obj_keys m = map fst m"

definition obj_values :: "('k, 'v) jsobject \<Rightarrow> 'v list" where
  "obj_values m = map snd m"

definition obj_has :: "('k, 'v) jsobject \<Rightarrow> 'k \<Rightarrow> bool" where
  "obj_has m k = (k \<in> set (obj_keys m))"

section \<open>Data model (types.ts)\<close>

text \<open>
  Timestamps are ISO-8601 strings in the source and are only ever compared or
  subtracted after \<^verbatim>\<open>new Date(s)\<close>; they are modelled by the instant they
  denote, in milliseconds since the epoch.  Numbers that hold similarities and scores
  are modelled as reals, identifiers and counts as integers and naturals.  Fields of an
  article that the store never reads are left out.
\<close>

type_synonym timestamp = int

record ZendeskArticle =
  article_id :: int
  article_title :: string
  body :: string
  html_url :: string
  created_at :: timestamp
  updated_at :: timestamp

record ArticleChunk =
  chunk_id :: string
  articleId :: int
  chunk_title :: string
  content :: string
  chunkIndex :: nat
  chunk_totalChunks :: nat
  url :: string
  chunk_createdAt :: timestamp
  chunk_updatedAt :: timestamp

record Embedding =
  embedding_id :: string
  articleChunkId :: string
  vector :: "real list"
  model :: string
  embedding_createdAt :: timestamp

record Metadata =
  version :: string
  createdAt :: timestamp
  updatedAt :: timestamp
  totalArticles :: nat
  totalChunks :: nat
  embeddingModel :: string
  chunkSize :: int
  chunkOverlap :: int

record VectorStore =
  articles :: "(int, ZendeskArticle) jsobject"
  chunks :: "(string, ArticleChunk) jsobject"
  embeddings :: "(string, Embedding) jsobject"
  metadata :: Metadata

record VectorSearchResult =
  chunk :: ArticleChunk
  embedding :: Embedding
  similarity :: real
  score :: real

record SearchOptions =
  maxResults :: int
  minSimilarity :: real
  includeMetadata :: bool
  boostRecent :: bool
  recentBoostFactor :: real

section \<open>The vector store service (vectorstore.ts)\<close>

text \<open>
  The file named by \<^verbatim>\<open>filePath\<close> is part of the state: it is absent, holds
  something that makes the \<^verbatim>\<open>try\<close> block of \<^verbatim>\<open>load\<close> throw
  (unreadable, not JSON, not shaped like a store), or holds a store.
\<close>

datatype disk = NoFile | Corrupt | File VectorStore

record VectorStoreService =
  vectorStore :: VectorStore
  isLoaded :: bool
  persisted :: disk

text \<open>
  What an operation takes from its environment: the clock, and whether
  \<^verbatim>\<open>fs.mkdir\<close> and \<^verbatim>\<open>fs.writeFile\<close> succeed.
\<close>

record env =
  now :: timestamp
  mkdirOk :: bool
  writeOk :: bool

datatype error = NotLoaded | DimensionMismatch | IOError

definition createEmptyStore :: "env \<Rightarrow> VectorStore" where
  "createEmptyStore e =
     \<lparr> articles = [], chunks = [], embeddings = [],
       metadata = \<lparr> version = ''1.0.0'', createdAt = now e, updatedAt = now e,
                    totalArticles = 0, totalChunks = 0, embeddingModel = '''',
                    chunkSize = 1000, chunkOverlap = 200 \<rparr> \<rparr>"

text \<open>The constructor: an empty store, not yet loaded.\<close>

definition newService :: "env \<Rightarrow> disk \<Rightarrow> VectorStoreService" where
  "newService e d = \<lparr> vectorStore = createEmptyStore e, isLoaded = False, persisted = d \<rparr>"

text \<open>\<^verbatim>\<open>load\<close> never throws: every failure is caught and replaced by an empty store.\<close>

definition load :: "env \<Rightarrow> VectorStoreService \<Rightarrow> VectorStoreService" where
  "load e s =
     (case persisted s of
        File st \<Rightarrow> s\<lparr> vectorStore := st, isLoaded := True \<rparr>
      | NoFile \<Rightarrow> s\<lparr> vectorStore := createEmptyStore e, isLoaded := True \<rparr>
      | Corrupt \<Rightarrow> s\<lparr> vectorStore := createEmptyStore e, isLoaded := True \<rparr>)"

text \<open>
  \<^verbatim>\<open>save\<close>: the not-loaded check, then \<^verbatim>\<open>mkdir\<close>, then the metadata
  update (in memory), then the write.  An exception leaves the assignments made before
  it in place; a failed write is taken to leave the file as it was.
\<close>

definition stampMetadata :: "env \<Rightarrow> VectorStore \<Rightarrow> VectorStore" where
  "stampMetadata e st =
     st\<lparr> metadata := (metadata st)\<lparr> updatedAt := now e,
                                      totalArticles := length (obj_keys (articles st)),
                                      totalChunks := length (obj_keys (chunks st)) \<rparr> \<rparr>"

definition save :: "env \<Rightarrow> VectorStoreService \<Rightarrow> (error + unit) \<times> VectorStoreService" where
  "save e s =
     (if \<not> isLoaded s then (Inl NotLoaded, s)
      else if \<not> mkdirOk e then (Inl IOError, s)
      else let s1 = s\<lparr> vectorStore := stampMetadata e (vectorStore s) \<rparr>
           in if \<not> writeOk e then (Inl IOError, s1)
              else (Inr (), s1\<lparr> persisted := File (vectorStore s1) \<rparr>))"

definition ensureLoaded :: "env \<Rightarrow> VectorStoreService \<Rightarrow> VectorStoreService" where
  "ensureLoaded e s = (if \<not> isLoaded s then load e s else s)"

definition upsertStore ::
  "ZendeskArticle list \<Rightarrow> ArticleChunk list \<Rightarrow> Embedding list \<Rightarrow> string \<Rightarrow> int \<Rightarrow> int \<Rightarrow>
   VectorStore \<Rightarrow> VectorStore" where
  "upsertStore as cs es embModel cSize cOverlap st =
     (let st1 = st\<lparr> articles := fold (\<lambda>a m. obj_set m (article_id a) a) as (articles st) \<rparr>;
          st2 = st1\<lparr> chunks := fold (\<lambda>c m. obj_set m (chunk_id c) c) cs (chunks st1) \<rparr>;
          st3 = st2\<lparr> embeddings := fold (\<lambda>x m. obj_set m (embedding_id x) x) es (embeddings st2) \<rparr>
      in st3\<lparr> metadata := (metadata st3)\<lparr> embeddingModel := embModel,
                                           chunkSize := cSize,
                                           chunkOverlap := cOverlap \<rparr> \<rparr>)"

definition upsertData ::
  "env \<Rightarrow> ZendeskArticle list \<Rightarrow> ArticleChunk list \<Rightarrow> Embedding list \<Rightarrow> string \<Rightarrow> int \<Rightarrow> int \<Rightarrow>
   VectorStoreService \<Rightarrow> (error + unit) \<times> VectorStoreService" where
  "upsertData e as cs es embModel cSize cOverlap s =
     (let s1 = ensureLoaded e s;
          s2 = s1\<lparr> vectorStore := upsertStore as cs es embModel cSize cOverlap (vectorStore s1) \<rparr>
      in save e s2)"

definition clear :: "env \<Rightarrow> VectorStoreService \<Rightarrow> (error + unit) \<times> VectorStoreService" where
  "clear e s = save e (s\<lparr> vectorStore := createEmptyStore e \<rparr>)"

subsection \<open>Removing articles\<close>

definition removeChunk :: "ArticleChunk \<Rightarrow> VectorStore \<Rightarrow> VectorStore" where
  "removeChunk c st =
     st\<lparr> chunks := obj_delete (chunks st) (chunk_id c),
         embeddings := obj_delete (embeddings st) (chunk_id c @ ''_embedding'') \<rparr>"

definition removeArticle :: "int \<Rightarrow> VectorStore \<Rightarrow> VectorStore" where
  "removeArticle aid st =
     (let st1 = st\<lparr> articles := obj_delete (articles st) aid \<rparr>;
          chunksToRemove = filter (\<lambda>c. articleId c = aid) (obj_values (chunks st1))
      in fold removeChunk chunksToRemove st1)"

definition removeArticles ::
  "env \<Rightarrow> int list \<Rightarrow> VectorStoreService \<Rightarrow> (error + unit) \<times> VectorStoreService" where
  "removeArticles e articleIds s =
     (let s1 = ensureLoaded e s;
          s2 = s1\<lparr> vectorStore := fold removeArticle articleIds (vectorStore s1) \<rparr>
      in save e s2)"

subsection \<open>Accessors\<close>

record Stats =
  stats_totalArticles :: nat
  stats_totalChunks :: nat
  stats_totalEmbeddings :: nat
  stats_embeddingModel :: string
  stats_lastUpdated :: timestamp

definition getArticle :: "VectorStoreService \<Rightarrow> int \<Rightarrow> error + ZendeskArticle option" where
  "getArticle s aid =
     (if \<not> isLoaded s then Inl NotLoaded else Inr (obj_get (articles (vectorStore s)) aid))"

definition getChunk :: "VectorStoreService \<Rightarrow> string \<Rightarrow> error + ArticleChunk option" where
  "getChunk s cid =
     (if \<not> isLoaded s then Inl NotLoaded else Inr (obj_get (chunks (vectorStore s)) cid))"

definition getArticleChunks :: "VectorStoreService \<Rightarrow> int \<Rightarrow> error + ArticleChunk list" where
  "getArticleChunks s aid =
     (if \<not> isLoaded s then Inl NotLoaded
      else Inr (filter (\<lambda>c. articleId c = aid) (obj_values (chunks (vectorStore s)))))"

definition getStats :: "VectorStoreService \<Rightarrow> error + Stats" where
  "getStats s =
     (if \<not> isLoaded s then Inl NotLoaded
      else Inr \<lparr> stats_totalArticles = length (obj_keys (articles (vectorStore s))),
                 stats_totalChunks = length (obj_keys (chunks (vectorStore s))),
                 stats_totalEmbeddings = length (obj_keys (embeddings (vectorStore s))),
                 stats_embeddingModel = embeddingModel (metadata (vectorStore s)),
                 stats_lastUpdated = updatedAt (metadata (vectorStore s)) \<rparr>)"

text \<open>\<^verbatim>\<open>hasArticle\<close> has no \<^verbatim>\<open>throw\<close>: before loading it answers \<^verbatim>\<open>false\<close>.\<close>

definition hasArticle :: "VectorStoreService \<Rightarrow> int \<Rightarrow> error + bool" where
  "hasArticle s aid =
     (if \<not> isLoaded s then Inr False else Inr (obj_has (articles (vectorStore s)) aid))"

subsection \<open>Similarity search\<close>

text \<open>
  \<^verbatim>\<open>cosineSimilarity\<close>: one pass accumulating the dot product and the two squared
  norms; vectors of different lengths are an error, a zero magnitude gives 0.
\<close>

definition cosineSimilarity :: "real list \<Rightarrow> real list \<Rightarrow> error + real" where
  "cosineSimilarity vectorA vectorB =
     (if length vectorA \<noteq> length vectorB then Inl DimensionMismatch
      else let (dotProduct, normA, normB) =
                 fold (\<lambda>(a, b) (d, na, nb). (d + a * b, na + a * a, nb + b * b))
                      (zip vectorA vectorB) (0, 0, 0);
               magnitude = sqrt normA * sqrt normB
           in if magnitude = 0 then Inr 0 else Inr (dotProduct / magnitude))"

definition getArticleAgeInDays :: "env \<Rightarrow> timestamp \<Rightarrow> int" where
  "getArticleAgeInDays e t = \<lceil>real_of_int \<bar>now e - t\<bar> / (1000 * 60 * 60 * 24)\<rceil>"

text \<open>
  The loop over \<^verbatim>\<open>Object.values(embeddings)\<close>.  The threshold test reads the raw
  similarity; the recency boost only changes the score of a result that is pushed.
\<close>

fun scanEmbeddings ::
  "env \<Rightarrow> VectorStore \<Rightarrow> real list \<Rightarrow> SearchOptions \<Rightarrow> Embedding list \<Rightarrow>
   VectorSearchResult list \<Rightarrow> error + VectorSearchResult list" where
  "scanEmbeddings e st q opts [] results = Inr results"
| "scanEmbeddings e st q opts (x # xs) results =
     (case cosineSimilarity q (vector x) of
        Inl err \<Rightarrow> Inl err
      | Inr sim \<Rightarrow>
          if sim \<ge> minSimilarity opts then
            (case obj_get (chunks st) (articleChunkId x) of
               None \<Rightarrow> scanEmbeddings e st q opts xs results
             | Some c \<Rightarrow>
                 let sc = (if boostRecent opts
                           then sim * max 1 (recentBoostFactor opts
                                  - real_of_int (getArticleAgeInDays e (chunk_updatedAt c)) / 365)
                           else sim)
                 in scanEmbeddings e st q opts xs
                      (results @ [\<lparr> chunk = c, embedding = x, similarity = sim, score = sc \<rparr>]))
          else scanEmbeddings e st q opts xs results)"

text \<open>\<^verbatim>\<open>xs.slice(0, n)\<close>: a negative \<open>n\<close> counts from the end.\<close>

definition sliceTo :: "'a list \<Rightarrow> int \<Rightarrow> 'a list" where
  "sliceTo xs n = (if n < 0 then take (nat (int (length xs) + n)) xs else take (nat n) xs)"

text \<open>\<^verbatim>\<open>results.sort((a, b) => b.score - a.score)\<close>: a stable sort, highest score first.\<close>

definition sortByScore :: "VectorSearchResult list \<Rightarrow> VectorSearchResult list" where
  "sortByScore rs = sort_key (\<lambda>r. - score r) rs"

definition search ::
  "env \<Rightarrow> real list \<Rightarrow> SearchOptions \<Rightarrow> VectorStoreService \<Rightarrow>
   (error + VectorSearchResult list) \<times> VectorStoreService" where
  "search e q opts s =
     (let s1 = ensureLoaded e s
      in case scanEmbeddings e (vectorStore s1) q opts
                (obj_values (embeddings (vectorStore s1))) [] of
           Inl err \<Rightarrow> (Inl err, s1)
         | Inr results \<Rightarrow> (Inr (sliceTo (sortByScore results) (maxResults opts)), s1))"

subsection \<open>Reindex detection\<close>

record ReindexReport =
  needsReindex :: bool
  newArticles :: "ZendeskArticle list"
  updatedArticles :: "ZendeskArticle list"
  deletedArticleIds :: "int list"

text \<open>\<^verbatim>\<open>new Set(xs)\<close>, then \<^verbatim>\<open>Array.from\<close>: first occurrences, in order.\<close>

definition toSet :: "'a list \<Rightarrow> 'a list" where
  "toSet xs = fold (\<lambda>x acc. if x \<in> set acc then acc else acc @ [x]) xs []"

text \<open>The loop that sorts the fetched articles into new and updated ones.\<close>

definition classifyArticle ::
  "(int, ZendeskArticle) jsobject \<Rightarrow> ZendeskArticle \<Rightarrow>
   ZendeskArticle list \<times> ZendeskArticle list \<Rightarrow> ZendeskArticle list \<times> ZendeskArticle list" where
  "classifyArticle existingArticles a acc =
     (case obj_get existingArticles (article_id a) of
        None \<Rightarrow> (fst acc @ [a], snd acc)
      | Some existing \<Rightarrow>
          if updated_at a > updated_at existing then (fst acc, snd acc @ [a]) else acc)"

definition needsReindexing :: "VectorStoreService \<Rightarrow> ZendeskArticle list \<Rightarrow> ReindexReport" where
  "needsReindexing s as =
     (if \<not> isLoaded s
      then \<lparr> needsReindex = True, newArticles = as, updatedArticles = [],
             deletedArticleIds = [] \<rparr>
      else let existingArticles = articles (vectorStore s);
               currentArticleIds = toSet (map article_id as);
               existingArticleIds = toSet (obj_keys existingArticles);
               (new, upd) = fold (classifyArticle existingArticles) as ([], []);
               deleted = filter (\<lambda>i. i \<notin> set currentArticleIds) existingArticleIds
           in \<lparr> needsReindex = (length new > 0 \<or> length upd > 0 \<or> length deleted > 0),
                newArticles = new, updatedArticles = upd, deletedArticleIds = deleted \<rparr>)"

section \<open>The text splitter (embedding service)\<close>

text \<open>
  A string is a list of code units; \<^verbatim>\<open>length\<close>, \<^verbatim>\<open>slice\<close> and indexing count
  code units, as JavaScript does.  Code units are modelled by \<^typ>\<open>char\<close>, so only
  the Latin-1 range is represented; there the characters matched by \<^verbatim>\<open>\s\<close> and
  removed by \<^verbatim>\<open>trim\<close> are tab, line feed, vertical tab, form feed, carriage
  return, space and no-break space.
\<close>

record ChunkingOptions =
  opt_size :: int
  opt_overlap :: int
  preserveWords :: bool
  preserveSentences :: bool

datatype chunk_error = InvalidChunkSize | InvalidOverlap | ChunkingOverflow

definition isWhitespace :: "char \<Rightarrow> bool" where
  "isWhitespace c = ((of_char c :: nat) \<in> {9, 10, 11, 12, 13, 32, 160})"

definition isSentenceEnder :: "char \<Rightarrow> bool" where
  "isSentenceEnder c = (c = CHR ''.'' \<or> c = CHR ''!'' \<or> c = CHR ''?'')"

definition trim :: "string \<Rightarrow> string" where
  "trim s = rev (dropWhile isWhitespace (rev (dropWhile isWhitespace s)))"

definition sliceIndex :: "nat \<Rightarrow> int \<Rightarrow> nat" where
  "sliceIndex len i = (if i < 0 then nat (max (int len + i) 0) else min (nat i) len)"

definition slice :: "string \<Rightarrow> int \<Rightarrow> int \<Rightarrow> string" where
  "slice s a b =
     (let from = sliceIndex (length s) a; to = sliceIndex (length s) b
      in take (to - from) (drop from s))"

text \<open>
  \<^verbatim>\<open>findSentenceEnd\<close>: the global regular expression \<^verbatim>\<open>/[.!?]\s/g\<close> is started at
  \<open>minPos\<close>; each \<^verbatim>\<open>exec\<close> finds the next match at or after \<^verbatim>\<open>lastIndex\<close>
  and moves \<^verbatim>\<open>lastIndex\<close> past it.  The scan stops at the first match that begins
  after \<open>targetPos\<close>.
\<close>

function sentenceScan :: "string \<Rightarrow> int \<Rightarrow> nat \<Rightarrow> int \<Rightarrow> int" where
  "sentenceScan text targetPos i lastEnd =
     (if i + 1 < length text then
        (if isSentenceEnder (text ! i) \<and> isWhitespace (text ! (i + 1)) then
           (if int i > targetPos then lastEnd
            else sentenceScan text targetPos (i + 2) (int i + 1))
         else sentenceScan text targetPos (i + 1) lastEnd)
      else lastEnd)"
  by pat_completeness auto
termination
  by (relation "measure (\<lambda>(text, targetPos, i, lastEnd). length text - i)") auto

definition findSentenceEnd :: "string \<Rightarrow> int \<Rightarrow> int \<Rightarrow> int" where
  "findSentenceEnd text targetPos minPos =
     (let lastEnd = sentenceScan text targetPos (nat minPos) (- 1)
      in if lastEnd > minPos then lastEnd else targetPos)"

text \<open>
  \<^verbatim>\<open>findWordEnd\<close>: backwards from \<open>targetPos\<close> down to \<open>minPos + 1\<close>; an index
  outside the string reads \<^verbatim>\<open>undefined\<close>, which is no whitespace.
\<close>

function wordScan :: "string \<Rightarrow> int \<Rightarrow> int \<Rightarrow> int \<Rightarrow> int" where
  "wordScan text targetPos minPos i =
     (if i > minPos then
        (if 0 \<le> i \<and> i < int (length text) \<and> isWhitespace (text ! nat i) then i
         else wordScan text targetPos minPos (i - 1))
      else targetPos)"
  by pat_completeness auto
termination
  by (relation "measure (\<lambda>(text, targetPos, minPos, i). nat (i - minPos))") auto

definition findWordEnd :: "string \<Rightarrow> int \<Rightarrow> int \<Rightarrow> int" where
  "findWordEnd text targetPos minPos = wordScan text targetPos minPos targetPos"

text \<open>
  The state of the loop in \<^verbatim>\<open>splitText\<close>.  Besides the variables of the source
  (\<open>chunks\<close>, \<open>start\<close>, \<open>iterations\<close>) it records, for each chunk pushed, the
  range \<open>(start, end)\<close> it was sliced from, and counts the "Forcing progress"
  warnings written to the log.
\<close>

record splitState =
  s_chunks :: "string list"
  s_spans :: "(int \<times> int) list"
  s_start :: int
  s_iterations :: int
  s_forced :: nat

definition maxIterations :: "string \<Rightarrow> ChunkingOptions \<Rightarrow> int" where
  "maxIterations text opts =
     \<lceil>real (length text) / real_of_int (max 1 (opt_size opts - opt_overlap opts))\<rceil> + 100"

definition windowEnd :: "string \<Rightarrow> ChunkingOptions \<Rightarrow> int \<Rightarrow> int" where
  "windowEnd text opts start =
     (let end = start + opt_size opts
      in if end < int (length text) then
           (if preserveSentences opts then
              (let sentenceEnd = findSentenceEnd text end start
               in if sentenceEnd > start then sentenceEnd else end)
            else if preserveWords opts then
              (let wordEnd = findWordEnd text end start
               in if wordEnd > start then wordEnd else end)
            else end)
         else end)"

definition splitStep :: "string \<Rightarrow> ChunkingOptions \<Rightarrow> splitState \<Rightarrow> splitState" where
  "splitStep text opts st =
     (let start = s_start st;
          end = windowEnd text opts start;
          chunk = slice text start end;
          keep = (length (trim chunk) > 0);
          newStart = end - opt_overlap opts
      in \<lparr> s_chunks = (if keep then s_chunks st @ [chunk] else s_chunks st),
           s_spans = (if keep then s_spans st @ [(start, end)] else s_spans st),
           s_start = (if newStart \<le> start then start + max 1 (opt_size opts div 2) else newStart),
           s_iterations = s_iterations st + 1,
           s_forced = (if newStart \<le> start then s_forced st + 1 else s_forced st) \<rparr>)"

function splitLoop :: "string \<Rightarrow> ChunkingOptions \<Rightarrow> int \<Rightarrow> splitState \<Rightarrow> splitState" where
  "splitLoop text opts maxIt st =
     (if s_start st < int (length text) \<and> s_iterations st < maxIt then
        (let st' = splitStep text opts st
         in if s_start st' \<ge> int (length text) then st' else splitLoop text opts maxIt st')
      else st)"
  by pat_completeness auto
termination
  by (relation "measure (\<lambda>(text, opts, maxIt, st). nat (maxIt - s_iterations st))")
     (auto simp: splitStep_def Let_def)

definition splitInit :: splitState where
  "splitInit = \<lparr> s_chunks = [], s_spans = [], s_start = 0, s_iterations = 0, s_forced = 0 \<rparr>"

text \<open>The loop of \<^verbatim>\<open>splitText\<close> run from its initial state.\<close>

definition splitRun :: "string \<Rightarrow> ChunkingOptions \<Rightarrow> splitState" where
  "splitRun text opts = splitLoop text opts (maxIterations text opts) splitInit"

definition splitText :: "string \<Rightarrow> ChunkingOptions \<Rightarrow> chunk_error + string list" where
  "splitText text opts =
     (if opt_size opts \<le> 0 then Inl InvalidChunkSize
      else if opt_overlap opts < 0 \<or> opt_overlap opts \<ge> opt_size opts then Inl InvalidOverlap
      else let st = splitRun text opts
           in if s_iterations st \<ge> maxIterations text opts then Inl ChunkingOverflow
              else Inr (filter (\<lambda>c. length (trim c) > 0) (s_chunks st)))"

section \<open>The retry wrapper (embedding service, types.ts)\<close>

text \<open>
  What \<^verbatim>\<open>parseError\<close> can see of a thrown value: whether it is an object, whether it
  is an \<^verbatim>\<open>Error\<close>, the five properties the schema names, and \<^verbatim>\<open>String(error)\<close>.
  Numbers are restricted to integers.
\<close>

datatype jsval = JUndefined | JString string | JNumber int | JOther















section \<open>Predicates used in the statements\<close>

text \<open>The denormalised counts of the metadata agree with the two objects they count.\<close>

definition countsConsistent :: "VectorStore \<Rightarrow> bool" where
  "countsConsistent st =
     (totalArticles (metadata st) = length (obj_keys (articles st))
      \<and> totalChunks (metadata st) = length (obj_keys (chunks st)))"

text \<open>
  Every chunk is stored under its own identifier, as \<^verbatim>\<open>upsertData\<close> stores it, and
  no key occurs twice, as in every JavaScript object.
\<close>

definition chunksKeyedById :: "VectorStore \<Rightarrow> bool" where
  "chunksKeyedById st =
     (distinct (obj_keys (chunks st)) \<and> list_all (\<lambda>p. fst p = chunk_id (snd p)) (chunks st))"

text \<open>Position \<open>i\<close> lies in one of the ranges \<open>[start, end)\<close>.\<close>

definition covered :: "(int \<times> int) list \<Rightarrow> int \<Rightarrow> bool" where
  "covered spans i = list_ex (\<lambda>(a, b). a \<le> i \<and> i < b) spans"

section \<open>Example data\<close>

text \<open>A small store and a search request, used to instantiate the theorems below.\<close>

definition ex_env :: env where
  "ex_env = \<lparr> now = 864000000, mkdirOk = True, writeOk = True \<rparr>"

definition ex_article :: ZendeskArticle where
  "ex_article = \<lparr> article_id = 1, article_title = ''t'', body = ''b'', html_url = ''u'',
                  created_at = 0, updated_at = 0 \<rparr>"

definition ex_chunk0 :: ArticleChunk where
  "ex_chunk0 = \<lparr> chunk_id = ''article_1_chunk_0'', articleId = 1, chunk_title = ''t'',
                 content = ''x'', chunkIndex = 0, chunk_totalChunks = 2, url = ''u'',
                 chunk_createdAt = 0, chunk_updatedAt = 0 \<rparr>"

definition ex_chunk1 :: ArticleChunk where
  "ex_chunk1 = \<lparr> chunk_id = ''article_1_chunk_1'', articleId = 1, chunk_title = ''t'',
                 content = ''y'', chunkIndex = 1, chunk_totalChunks = 2, url = ''u'',
                 chunk_createdAt = 0, chunk_updatedAt = 0 \<rparr>"

definition ex_embedding0 :: Embedding where
  "ex_embedding0 = \<lparr> embedding_id = ''article_1_chunk_0_embedding'',
                     articleChunkId = ''article_1_chunk_0'', vector = [1, 0], model = ''m'',
                     embedding_createdAt = 0 \<rparr>"

definition ex_embedding1 :: Embedding where
  "ex_embedding1 = \<lparr> embedding_id = ''article_1_chunk_1_embedding'',
                     articleChunkId = ''article_1_chunk_1'', vector = [0, 1], model = ''m'',
                     embedding_createdAt = 0 \<rparr>"

definition ex_store :: VectorStore where
  "ex_store = \<lparr> articles = [(1, ex_article)],
                chunks = [(''article_1_chunk_0'', ex_chunk0), (''article_1_chunk_1'', ex_chunk1)],
                embeddings = [(''article_1_chunk_0_embedding'', ex_embedding0),
                              (''article_1_chunk_1_embedding'', ex_embedding1)],
                metadata = \<lparr> version = ''1.0.0'', createdAt = 0, updatedAt = 0,
                             totalArticles = 1, totalChunks = 2, embeddingModel = ''m'',
                             chunkSize = 1000, chunkOverlap = 200 \<rparr> \<rparr>"

definition ex_options :: SearchOptions where
  "ex_options = \<lparr> maxResults = 5, minSimilarity = 7 / 10, includeMetadata = True,
                  boostRecent = True, recentBoostFactor = 11 / 10 \<rparr>"





text \<open>Three splitter configurations: sentence-seeking, word-seeking and plain.\<close>

definition ex_sentenceOpts :: ChunkingOptions where
  "ex_sentenceOpts = \<lparr> opt_size = 2, opt_overlap = 0, preserveWords = False,
                       preserveSentences = True \<rparr>"

definition ex_wordOpts :: ChunkingOptions where
  "ex_wordOpts = \<lparr> opt_size = 6, opt_overlap = 3, preserveWords = True,
                   preserveSentences = False \<rparr>"

definition ex_plainOpts :: ChunkingOptions where
  "ex_plainOpts = \<lparr> opt_size = 3, opt_overlap = 1, preserveWords = False,
                    preserveSentences = False \<rparr>"

declare sentenceScan.simps [simp del]
declare wordScan.simps [simp del]
declare splitLoop.simps [simp del]

section \<open>Accessors before loading\<close>

lemma ensureLoaded_isLoaded: "isLoaded (ensureLoaded e s)"
  by (simp add: ensureLoaded_def load_def split: disk.splits)

lemma ensureLoaded_unloaded: "\<not> isLoaded s \<Longrightarrow> ensureLoaded e s = load e s"
  by (simp add: ensureLoaded_def)

lemma ensureLoaded_load: "ensureLoaded e (load e s) = load e s"
  by (simp add: ensureLoaded_def load_def split: disk.splits)

lemma save_not_NotLoaded: "isLoaded s \<Longrightarrow> fst (save e s) \<noteq> Inl NotLoaded"
  by (simp add: save_def Let_def)

lemma save_isLoaded: "isLoaded s \<Longrightarrow> isLoaded (snd (save e s))"
  by (simp add: save_def Let_def)

lemma save_success:
  "fst (save e s) = Inr u \<Longrightarrow>
     vectorStore (snd (save e s)) = stampMetadata e (vectorStore s)
     \<and> persisted (snd (save e s)) = File (stampMetadata e (vectorStore s))"
  by (simp add: save_def Let_def split: if_splits)

lemma countsConsistent_stamp: "countsConsistent (stampMetadata e st)"
  by (simp add: countsConsistent_def stampMetadata_def)

text \<open>
  Claim C5, as the code has it.  On a service that has not been loaded, \<^verbatim>\<open>getArticle\<close>,
  \<^verbatim>\<open>getChunk\<close>, \<^verbatim>\<open>getArticleChunks\<close> and \<^verbatim>\<open>getStats\<close> fail with the
  not-loaded error; \<^verbatim>\<open>hasArticle\<close> does not fail and answers \<^verbatim>\<open>false\<close>.
\<close>

theorem accessors_before_load:
  "\<not> isLoaded s \<Longrightarrow>
     getArticle s aid = Inl NotLoaded
     \<and> getChunk s cid = Inl NotLoaded
     \<and> getArticleChunks s aid = Inl NotLoaded
     \<and> getStats s = Inl NotLoaded
     \<and> hasArticle s aid = Inr False"
  by (simp add: getArticle_def getChunk_def getArticleChunks_def getStats_def hasArticle_def)

theorem accessors_before_load_witness:
  "\<not> isLoaded (newService \<lparr> now = 0, mkdirOk = True, writeOk = True \<rparr> NoFile)
   \<and> getArticle (newService \<lparr> now = 0, mkdirOk = True, writeOk = True \<rparr> NoFile) 1 = Inl NotLoaded
   \<and> getStats (newService \<lparr> now = 0, mkdirOk = True, writeOk = True \<rparr> NoFile) = Inl NotLoaded
   \<and> hasArticle (newService \<lparr> now = 0, mkdirOk = True, writeOk = True \<rparr> NoFile) 1 = Inr False"
proof -
  have h: "\<not> isLoaded (newService \<lparr> now = 0, mkdirOk = True, writeOk = True \<rparr> NoFile)"
    by (simp add: newService_def)
  show ?thesis
    using h accessors_before_load [OF h, of 1 "''c''"] by simp
qed

text \<open>
  Claim C5 as stated fails: on a freshly constructed service, \<^verbatim>\<open>hasArticle\<close> returns a
  value instead of raising the not-loaded error.
\<close>

theorem hasArticle_before_load_counterexample:
  "\<not> isLoaded (newService \<lparr> now = 0, mkdirOk = True, writeOk = True \<rparr> NoFile)
   \<and> hasArticle (newService \<lparr> now = 0, mkdirOk = True, writeOk = True \<rparr> NoFile) 1 \<noteq> Inl NotLoaded"
  by (simp add: newService_def hasArticle_def)

section \<open>Operations that load on demand\<close>

text \<open>
  Claim C9.  Called on a service that has not been loaded, \<^verbatim>\<open>search\<close>,
  \<^verbatim>\<open>upsertData\<close> and \<^verbatim>\<open>removeArticles\<close> behave exactly as on the service
  after \<^verbatim>\<open>load\<close> (which holds the persisted store, or an empty one when the file is
  absent or unusable), leave the service loaded, and do not raise the not-loaded error.
\<close>

theorem load_on_demand:
  "\<not> isLoaded s \<Longrightarrow>
     (case persisted s of
        File st \<Rightarrow> vectorStore (load e s) = st
      | NoFile \<Rightarrow> vectorStore (load e s) = createEmptyStore e
      | Corrupt \<Rightarrow> vectorStore (load e s) = createEmptyStore e)
     \<and> search e q opts s = search e q opts (load e s)
     \<and> fst (search e q opts s) \<noteq> Inl NotLoaded
     \<and> isLoaded (snd (search e q opts s))
     \<and> upsertData e as cs es m cSize cOverlap s = upsertData e as cs es m cSize cOverlap (load e s)
     \<and> fst (upsertData e as cs es m cSize cOverlap s) \<noteq> Inl NotLoaded
     \<and> isLoaded (snd (upsertData e as cs es m cSize cOverlap s))
     \<and> removeArticles e ids s = removeArticles e ids (load e s)
     \<and> fst (removeArticles e ids s) \<noteq> Inl NotLoaded
     \<and> isLoaded (snd (removeArticles e ids s))"
proof -
  assume n: "\<not> isLoaded s"
  have l: "isLoaded (ensureLoaded e s)" by (rule ensureLoaded_isLoaded)
  have el: "ensureLoaded e s = load e s" using n by (rule ensureLoaded_unloaded)
  have ll: "ensureLoaded e (load e s) = load e s" by (rule ensureLoaded_load)
  have s1: "search e q opts s = search e q opts (load e s)"
    by (simp add: search_def el ll)
  have dm: "\<And>xs acc. scanEmbeddings e (vectorStore (load e s)) q opts xs acc \<noteq> Inl NotLoaded"
  proof -
    fix xs acc
    show "scanEmbeddings e (vectorStore (load e s)) q opts xs acc \<noteq> Inl NotLoaded"
      by (induction xs arbitrary: acc)
         (auto simp: cosineSimilarity_def Let_def split: sum.splits option.splits if_splits prod.splits)
  qed
  have s2: "fst (search e q opts s) \<noteq> Inl NotLoaded"
    using dm by (auto simp: search_def el Let_def split: sum.splits)
  have s3: "isLoaded (snd (search e q opts s))"
    using l by (auto simp: search_def Let_def split: sum.splits)
  have u1: "upsertData e as cs es m cSize cOverlap s = upsertData e as cs es m cSize cOverlap (load e s)"
    by (simp add: upsertData_def el ll)
  have u2: "fst (upsertData e as cs es m cSize cOverlap s) \<noteq> Inl NotLoaded"
    using l by (simp add: upsertData_def Let_def save_not_NotLoaded)
  have u3: "isLoaded (snd (upsertData e as cs es m cSize cOverlap s))"
    using l by (simp add: upsertData_def Let_def save_isLoaded)
  have r1: "removeArticles e ids s = removeArticles e ids (load e s)"
    by (simp add: removeArticles_def el ll)
  have r2: "fst (removeArticles e ids s) \<noteq> Inl NotLoaded"
    using l by (simp add: removeArticles_def Let_def save_not_NotLoaded)
  have r3: "isLoaded (snd (removeArticles e ids s))"
    using l by (simp add: removeArticles_def Let_def save_isLoaded)
  have ld: "case persisted s of
        File st \<Rightarrow> vectorStore (load e s) = st
      | NoFile \<Rightarrow> vectorStore (load e s) = createEmptyStore e
      | Corrupt \<Rightarrow> vectorStore (load e s) = createEmptyStore e"
    by (simp add: load_def split: disk.splits)
  from ld s1 s2 s3 u1 u2 u3 r1 r2 r3 show ?thesis by blast
qed

theorem load_on_demand_witness:
  "\<not> isLoaded (newService \<lparr> now = 0, mkdirOk = True, writeOk = True \<rparr> Corrupt)
   \<and> fst (search \<lparr> now = 0, mkdirOk = True, writeOk = True \<rparr> [1, 0]
            \<lparr> maxResults = 5, minSimilarity = 7 / 10, includeMetadata = True,
              boostRecent = False, recentBoostFactor = 11 / 10 \<rparr>
            (newService \<lparr> now = 0, mkdirOk = True, writeOk = True \<rparr> Corrupt)) \<noteq> Inl NotLoaded
   \<and> fst (upsertData \<lparr> now = 0, mkdirOk = True, writeOk = True \<rparr> [] [] [] ''m'' 1000 200
            (newService \<lparr> now = 0, mkdirOk = True, writeOk = True \<rparr> Corrupt)) \<noteq> Inl NotLoaded
   \<and> fst (removeArticles \<lparr> now = 0, mkdirOk = True, writeOk = True \<rparr> [1]
            (newService \<lparr> now = 0, mkdirOk = True, writeOk = True \<rparr> Corrupt)) \<noteq> Inl NotLoaded"
proof -
  have h: "\<not> isLoaded (newService \<lparr> now = 0, mkdirOk = True, writeOk = True \<rparr> Corrupt)"
    by (simp add: newService_def)
  show ?thesis
    using h load_on_demand [OF h, of "\<lparr> now = 0, mkdirOk = True, writeOk = True \<rparr>" "[1, 0]"
      "\<lparr> maxResults = 5, minSimilarity = 7 / 10, includeMetadata = True,
         boostRecent = False, recentBoostFactor = 11 / 10 \<rparr>" "[]" "[]" "[]" "''m''" 1000 200 "[1]"]
    by blast
qed

section \<open>Metadata counts after a save\<close>

text \<open>
  Claim C10.  Whenever \<^verbatim>\<open>upsertData\<close>, \<^verbatim>\<open>removeArticles\<close> or \<^verbatim>\<open>clear\<close>
  succeeds, the metadata of the store in memory counts exactly the entries of the
  articles and chunks objects, and the file holds that same store.
\<close>

theorem counts_after_mutation:
  "(fst (upsertData e as cs es m cSize cOverlap s) = Inr () \<longrightarrow>
      countsConsistent (vectorStore (snd (upsertData e as cs es m cSize cOverlap s)))
      \<and> persisted (snd (upsertData e as cs es m cSize cOverlap s))
          = File (vectorStore (snd (upsertData e as cs es m cSize cOverlap s))))
   \<and> (fst (removeArticles e ids s) = Inr () \<longrightarrow>
      countsConsistent (vectorStore (snd (removeArticles e ids s)))
      \<and> persisted (snd (removeArticles e ids s)) = File (vectorStore (snd (removeArticles e ids s))))
   \<and> (fst (clear e s) = Inr () \<longrightarrow>
      countsConsistent (vectorStore (snd (clear e s)))
      \<and> persisted (snd (clear e s)) = File (vectorStore (snd (clear e s))))"
  using save_success countsConsistent_stamp
  by (simp add: upsertData_def removeArticles_def clear_def Let_def)

theorem counts_after_mutation_witness:
  "fst (upsertData \<lparr> now = 5, mkdirOk = True, writeOk = True \<rparr>
          [\<lparr> article_id = 1, article_title = ''t'', body = ''b'', html_url = ''u'',
             created_at = 1, updated_at = 2 \<rparr>] [] [] ''m'' 1000 200
          (newService \<lparr> now = 5, mkdirOk = True, writeOk = True \<rparr> NoFile)) = Inr ()
   \<and> fst (removeArticles \<lparr> now = 5, mkdirOk = True, writeOk = True \<rparr> [1]
          (newService \<lparr> now = 5, mkdirOk = True, writeOk = True \<rparr> NoFile)) = Inr ()
   \<and> fst (clear \<lparr> now = 5, mkdirOk = True, writeOk = True \<rparr>
          (load \<lparr> now = 5, mkdirOk = True, writeOk = True \<rparr>
             (newService \<lparr> now = 5, mkdirOk = True, writeOk = True \<rparr> NoFile))) = Inr ()
   \<and> countsConsistent (vectorStore (snd (upsertData \<lparr> now = 5, mkdirOk = True, writeOk = True \<rparr>
          [\<lparr> article_id = 1, article_title = ''t'', body = ''b'', html_url = ''u'',
             created_at = 1, updated_at = 2 \<rparr>] [] [] ''m'' 1000 200
          (newService \<lparr> now = 5, mkdirOk = True, writeOk = True \<rparr> NoFile))))
   \<and> countsConsistent (vectorStore (snd (removeArticles \<lparr> now = 5, mkdirOk = True, writeOk = True \<rparr> [1]
          (newService \<lparr> now = 5, mkdirOk = True, writeOk = True \<rparr> NoFile))))
   \<and> countsConsistent (vectorStore (snd (clear \<lparr> now = 5, mkdirOk = True, writeOk = True \<rparr>
          (load \<lparr> now = 5, mkdirOk = True, writeOk = True \<rparr>
             (newService \<lparr> now = 5, mkdirOk = True, writeOk = True \<rparr> NoFile)))))"
proof -
  let ?e = "\<lparr> now = 5, mkdirOk = True, writeOk = True \<rparr>"
  let ?a = "\<lparr> article_id = 1, article_title = ''t'', body = ''b'', html_url = ''u'',
              created_at = 1, updated_at = 2 \<rparr>"
  have u: "fst (upsertData ?e [?a] [] [] ''m'' 1000 200 (newService ?e NoFile)) = Inr ()"
    by (simp add: upsertData_def ensureLoaded_def load_def newService_def save_def Let_def)
  have r: "fst (removeArticles ?e [1] (newService ?e NoFile)) = Inr ()"
    by (simp add: removeArticles_def ensureLoaded_def load_def newService_def save_def Let_def)
  have c: "fst (clear ?e (load ?e (newService ?e NoFile))) = Inr ()"
    by (simp add: clear_def load_def newService_def save_def Let_def)
  show ?thesis
    using u r c
      counts_after_mutation [of ?e "[?a]" "[]" "[]" "''m''" 1000 200 "newService ?e NoFile" "[1]"]
      counts_after_mutation [of ?e "[]" "[]" "[]" "''m''" 1000 200 "load ?e (newService ?e NoFile)" "[]"]
    by simp
qed

section \<open>Search: the similarity threshold\<close>

lemma scanEmbeddings_results:
  "scanEmbeddings e st q opts xs acc = Inr rs \<Longrightarrow> r \<in> set rs \<Longrightarrow> r \<notin> set acc \<Longrightarrow>
     minSimilarity opts \<le> similarity r
     \<and> embedding r \<in> set xs
     \<and> cosineSimilarity q (vector (embedding r)) = Inr (similarity r)
     \<and> obj_get (chunks st) (articleChunkId (embedding r)) = Some (chunk r)
     \<and> score r = (if boostRecent opts
                  then similarity r * max 1 (recentBoostFactor opts
                         - real_of_int (getArticleAgeInDays e (chunk_updatedAt (chunk r))) / 365)
                  else similarity r)"
proof (induction xs arbitrary: acc)
  case Nil
  then show ?case by simp
next
  case (Cons x xs)
  show ?case
  proof (cases "cosineSimilarity q (vector x)")
    case (Inl err)
    with Cons.prems show ?thesis by simp
  next
    case (Inr sim)
    show ?thesis
    proof (cases "sim \<ge> minSimilarity opts")
      case False
      with Inr Cons.prems have "scanEmbeddings e st q opts xs acc = Inr rs" by simp
      from Cons.IH [OF this Cons.prems(2) Cons.prems(3)] show ?thesis by simp
    next
      case True
      show ?thesis
      proof (cases "obj_get (chunks st) (articleChunkId x)")
        case None
        with Inr True Cons.prems have "scanEmbeddings e st q opts xs acc = Inr rs" by simp
        from Cons.IH [OF this Cons.prems(2) Cons.prems(3)] show ?thesis by simp
      next
        case (Some c)
        define sc where "sc = (if boostRecent opts
                           then sim * max 1 (recentBoostFactor opts
                                  - real_of_int (getArticleAgeInDays e (chunk_updatedAt c)) / 365)
                           else sim)"
        define r0 where "r0 = \<lparr> chunk = c, embedding = x, similarity = sim, score = sc \<rparr>"
        from Inr True Some Cons.prems(1)
        have run: "scanEmbeddings e st q opts xs (acc @ [r0]) = Inr rs"
          by (simp add: r0_def sc_def Let_def)
        show ?thesis
        proof (cases "r = r0")
          case True
          with Inr \<open>sim \<ge> minSimilarity opts\<close> Some show ?thesis
            by (simp add: r0_def sc_def)
        next
          case False
          with Cons.prems(3) have "r \<notin> set (acc @ [r0])" by simp
          from Cons.IH [OF run Cons.prems(2) this] show ?thesis by simp
        qed
      qed
    qed
  qed
qed

lemma set_sliceTo: "set (sliceTo xs n) \<subseteq> set xs"
  by (auto simp: sliceTo_def dest: in_set_takeD)

lemma set_sortByScore: "set (sortByScore rs) = set rs"
  by (simp add: sortByScore_def)

text \<open>
  Claim C1.  Every result that \<^verbatim>\<open>search\<close> returns belongs to a stored embedding
  whose raw cosine similarity to the query is at or above \<open>minSimilarity\<close>; the
  \<open>similarity\<close> field holds that raw value, and the recency boost enters the
  \<open>score\<close> field only, as \<open>similarity * max 1 (recentBoostFactor - ageInDays / 365)\<close>.
  This holds for every setting of \<open>boostRecent\<close>, so the boost admits no result below
  the threshold.
\<close>

theorem search_threshold:
  "search e q opts s = (Inr rs, s') \<Longrightarrow> r \<in> set rs \<Longrightarrow>
     minSimilarity opts \<le> similarity r
     \<and> embedding r \<in> set (obj_values (embeddings (vectorStore s')))
     \<and> cosineSimilarity q (vector (embedding r)) = Inr (similarity r)
     \<and> obj_get (chunks (vectorStore s')) (articleChunkId (embedding r)) = Some (chunk r)
     \<and> score r = (if boostRecent opts
                  then similarity r * max 1 (recentBoostFactor opts
                         - real_of_int (getArticleAgeInDays e (chunk_updatedAt (chunk r))) / 365)
                  else similarity r)"
proof -
  assume a: "search e q opts s = (Inr rs, s')" and m: "r \<in> set rs"
  from a obtain results where
    sc: "scanEmbeddings e (vectorStore s') q opts (obj_values (embeddings (vectorStore s'))) [] = Inr results"
    and rs: "rs = sliceTo (sortByScore results) (maxResults opts)"
    by (auto simp: search_def Let_def split: sum.splits)
  have "set rs \<subseteq> set results"
    using set_sliceTo [of "sortByScore results" "maxResults opts"] by (simp add: rs set_sortByScore)
  with m have "r \<in> set results" by (rule rev_subsetD)
  from scanEmbeddings_results [OF sc this] show ?thesis by simp
qed

text \<open>
  On the example store the query \<open>[1, 0]\<close> has similarity 1 to the first embedding and
  0 to the second; with the boost switched on only the first is returned.
\<close>

theorem search_threshold_witness:
  "search ex_env [1, 0] ex_options (newService ex_env (File ex_store))
     = (Inr [\<lparr> chunk = ex_chunk0, embedding = ex_embedding0, similarity = 1,
               score = 1 * max 1 (11 / 10 - 10 / 365) \<rparr>],
        \<lparr> vectorStore = ex_store, isLoaded = True, persisted = File ex_store \<rparr>)
   \<and> minSimilarity ex_options \<le> 1
   \<and> cosineSimilarity [1, 0] (vector ex_embedding0) = Inr 1"
proof -
  let ?r = "\<lparr> chunk = ex_chunk0, embedding = ex_embedding0, similarity = 1,
              score = 1 * max 1 (11 / 10 - 10 / 365) \<rparr>"
  have cs1: "cosineSimilarity [1, 0] [1, 0] = Inr 1"
    by (simp add: cosineSimilarity_def)
  have cs2: "cosineSimilarity [1, 0] [0, 1] = Inr 0"
    by (simp add: cosineSimilarity_def)
  have age: "getArticleAgeInDays ex_env 0 = 10"
    by (simp add: getArticleAgeInDays_def ex_env_def)
  have run: "search ex_env [1, 0] ex_options (newService ex_env (File ex_store))
     = (Inr [?r], \<lparr> vectorStore = ex_store, isLoaded = True, persisted = File ex_store \<rparr>)"
    by (simp add: search_def ensureLoaded_def load_def newService_def ex_store_def obj_values_def
        obj_get_def ex_embedding0_def ex_embedding1_def ex_chunk0_def ex_chunk1_def cs1 cs2 age
        ex_options_def sortByScore_def sliceTo_def)
  have mem: "?r \<in> set [?r]" by simp
  from search_threshold [OF run mem] run show ?thesis by simp
qed

section \<open>Reindex detection is a diff\<close>

lemma toSet_fold:
  "set (fold (\<lambda>x acc. if x \<in> set acc then acc else acc @ [x]) xs acc) = set xs \<union> set acc
   \<and> (distinct acc \<longrightarrow> distinct (fold (\<lambda>x acc. if x \<in> set acc then acc else acc @ [x]) xs acc))"
  by (induction xs arbitrary: acc) auto

lemma set_toSet: "set (toSet xs) = set xs"
  using toSet_fold [of xs "[]"] by (simp add: toSet_def)

lemma distinct_toSet: "distinct (toSet xs)"
  using toSet_fold [of xs "[]"] by (simp add: toSet_def)

lemma obj_get_None: "(obj_get m k = None) = (k \<notin> set (obj_keys m))"
  by (simp add: obj_get_def obj_keys_def map_of_eq_None_iff)

lemma fold_classifyArticle:
  "fold (classifyArticle ex) as acc =
     (fst acc @ filter (\<lambda>a. article_id a \<notin> set (obj_keys ex)) as,
      snd acc @ filter (\<lambda>a. case obj_get ex (article_id a) of None \<Rightarrow> False
                              | Some old \<Rightarrow> updated_at old < updated_at a) as)"
proof (induction as arbitrary: acc)
  case Nil
  show ?case by simp
next
  case (Cons a as)
  show ?case
  proof (cases "obj_get ex (article_id a)")
    case None
    then have "article_id a \<notin> set (obj_keys ex)" by (simp add: obj_get_None)
    have step: "classifyArticle ex a acc = (fst acc @ [a], snd acc)"
      using None by (simp add: classifyArticle_def)
    from None \<open>article_id a \<notin> set (obj_keys ex)\<close> show ?thesis by (simp add: step Cons.IH)
  next
    case (Some old)
    then have "article_id a \<in> set (obj_keys ex)" using obj_get_None [of ex "article_id a"] by simp
    have step: "classifyArticle ex a acc =
        (if updated_at old < updated_at a then (fst acc, snd acc @ [a]) else acc)"
      using Some by (simp add: classifyArticle_def)
    from Some \<open>article_id a \<in> set (obj_keys ex)\<close> show ?thesis by (simp add: step Cons.IH)
  qed
qed

text \<open>
  Claim C7.  \<^verbatim>\<open>needsReindexing\<close> returns a report and nothing else (the function has no
  assignment to the service, so the model has no state to return).  On a loaded service
  the report lists as new the fetched articles whose id is no key of the stored
  articles, as updated those whose \<open>updated_at\<close> is strictly later than the stored
  one, as deleted exactly the stored ids that no fetched article has, and the flag is
  set iff one of the three lists is non-empty.  When every fetched article is stored
  with the same \<open>updated_at\<close> and every stored id is fetched, the report is empty and
  the flag is false.
\<close>

theorem needsReindexing_diff:
  "isLoaded s \<Longrightarrow>
     newArticles (needsReindexing s as)
       = filter (\<lambda>a. article_id a \<notin> set (obj_keys (articles (vectorStore s)))) as
     \<and> updatedArticles (needsReindexing s as)
       = filter (\<lambda>a. case obj_get (articles (vectorStore s)) (article_id a) of
                        None \<Rightarrow> False | Some old \<Rightarrow> updated_at old < updated_at a) as
     \<and> set (deletedArticleIds (needsReindexing s as))
       = set (obj_keys (articles (vectorStore s))) - article_id ` set as
     \<and> distinct (deletedArticleIds (needsReindexing s as))
     \<and> needsReindex (needsReindexing s as)
       = (newArticles (needsReindexing s as) \<noteq> []
          \<or> updatedArticles (needsReindexing s as) \<noteq> []
          \<or> deletedArticleIds (needsReindexing s as) \<noteq> [])
     \<and> ((\<forall>a \<in> set as. case obj_get (articles (vectorStore s)) (article_id a) of
                           None \<Rightarrow> False | Some old \<Rightarrow> updated_at old = updated_at a)
          \<and> set (obj_keys (articles (vectorStore s))) \<subseteq> article_id ` set as
        \<longrightarrow> needsReindexing s as
            = \<lparr> needsReindex = False, newArticles = [], updatedArticles = [],
                deletedArticleIds = [] \<rparr>)"
proof -
  assume l: "isLoaded s"
  define ex where "ex = articles (vectorStore s)"
  define new where "new = filter (\<lambda>a. article_id a \<notin> set (obj_keys ex)) as"
  define upd where "upd = filter (\<lambda>a. case obj_get ex (article_id a) of
                        None \<Rightarrow> False | Some old \<Rightarrow> updated_at old < updated_at a) as"
  define del where "del = filter (\<lambda>i. i \<notin> set (toSet (map article_id as))) (toSet (obj_keys ex))"
  have rep: "needsReindexing s as
     = \<lparr> needsReindex = (length new > 0 \<or> length upd > 0 \<or> length del > 0),
         newArticles = new, updatedArticles = upd, deletedArticleIds = del \<rparr>"
    using l by (simp add: needsReindexing_def Let_def fold_classifyArticle ex_def new_def upd_def del_def)
  have sdel: "set del = set (obj_keys ex) - article_id ` set as"
    by (auto simp: del_def set_toSet)
  have ddel: "distinct del"
    by (simp add: del_def distinct_toSet)
  have unchanged: "new = [] \<and> upd = [] \<and> del = []"
    if h1: "\<forall>a \<in> set as. case obj_get ex (article_id a) of
                           None \<Rightarrow> False | Some old \<Rightarrow> updated_at old = updated_at a"
      and h2: "set (obj_keys ex) \<subseteq> article_id ` set as"
  proof -
    have n: "new = []"
      unfolding new_def filter_empty_conv
    proof
      fix a assume "a \<in> set as"
      with h1 have "obj_get ex (article_id a) \<noteq> None" by (auto split: option.splits)
      then show "\<not> article_id a \<notin> set (obj_keys ex)" by (simp add: obj_get_None)
    qed
    have u: "upd = []"
      unfolding upd_def filter_empty_conv using h1 by (auto split: option.splits)
    have d: "del = []"
      using sdel h2 by (metis Diff_eq_empty_iff set_empty)
    from n u d show ?thesis by simp
  qed
  show ?thesis
    using rep sdel ddel unchanged by (simp add: ex_def [symmetric] new_def [symmetric] upd_def [symmetric])
qed


text \<open>
  The example store holds article 1.  Fetching exactly that article reports nothing;
  fetching an article 2 instead reports it as new and article 1 as deleted.
\<close>

theorem needsReindexing_diff_witness:
  "isLoaded (load ex_env (newService ex_env (File ex_store)))
   \<and> needsReindexing (load ex_env (newService ex_env (File ex_store))) [ex_article]
       = \<lparr> needsReindex = False, newArticles = [], updatedArticles = [], deletedArticleIds = [] \<rparr>
   \<and> newArticles (needsReindexing (load ex_env (newService ex_env (File ex_store)))
         [ex_article\<lparr> article_id := 2 \<rparr>]) = [ex_article\<lparr> article_id := 2 \<rparr>]
   \<and> set (deletedArticleIds (needsReindexing (load ex_env (newService ex_env (File ex_store)))
         [ex_article\<lparr> article_id := 2 \<rparr>])) = {1}"
proof -
  let ?s = "load ex_env (newService ex_env (File ex_store))"
  have l: "isLoaded ?s"
    by (simp add: load_def newService_def)
  have arts: "articles (vectorStore ?s) = [(1, ex_article)]"
    by (simp add: load_def newService_def ex_store_def)
  have h1: "\<forall>a \<in> set [ex_article].
         case obj_get (articles (vectorStore ?s)) (article_id a) of
           None \<Rightarrow> False | Some old \<Rightarrow> updated_at old = updated_at a"
    by (simp add: arts obj_get_def ex_article_def)
  have h2: "set (obj_keys (articles (vectorStore ?s))) \<subseteq> article_id ` set [ex_article]"
    by (simp add: arts obj_keys_def ex_article_def)
  from needsReindexing_diff [OF l, of "[ex_article]"] h1 h2
  have a: "needsReindexing ?s [ex_article]
       = \<lparr> needsReindex = False, newArticles = [], updatedArticles = [], deletedArticleIds = [] \<rparr>"
    by blast
  from needsReindexing_diff [OF l, of "[ex_article\<lparr> article_id := 2 \<rparr>]"]
  have b: "newArticles (needsReindexing ?s [ex_article\<lparr> article_id := 2 \<rparr>]) = [ex_article\<lparr> article_id := 2 \<rparr>]
     \<and> set (deletedArticleIds (needsReindexing ?s [ex_article\<lparr> article_id := 2 \<rparr>])) = {1}"
    by (simp add: arts obj_keys_def)
  from l a b show ?thesis by blast
qed

section \<open>Removing articles cascades to chunks and embeddings\<close>

lemma fold_removeChunk:
  "articles (fold removeChunk cs st) = articles st
   \<and> metadata (fold removeChunk cs st) = metadata st
   \<and> chunks (fold removeChunk cs st) = filter (\<lambda>p. fst p \<notin> chunk_id ` set cs) (chunks st)
   \<and> embeddings (fold removeChunk cs st)
       = filter (\<lambda>p. fst p \<notin> (\<lambda>c. chunk_id c @ ''_embedding'') ` set cs) (embeddings st)"
proof (induction cs arbitrary: st)
  case Nil
  show ?case by simp
next
  case (Cons c cs)
  have a: "chunks (removeChunk c st) = filter (\<lambda>p. fst p \<noteq> chunk_id c) (chunks st)"
    by (simp add: removeChunk_def obj_delete_def)
  have b: "embeddings (removeChunk c st)
      = filter (\<lambda>p. fst p \<noteq> chunk_id c @ ''_embedding'') (embeddings st)"
    by (simp add: removeChunk_def obj_delete_def)
  have c: "articles (removeChunk c st) = articles st \<and> metadata (removeChunk c st) = metadata st"
    by (simp add: removeChunk_def)
  show ?case
    using Cons.IH [of "removeChunk c st"] by (auto simp: a b c intro: filter_cong)
qed

lemma removeArticle_effect:
  assumes k: "chunksKeyedById st"
  shows "articles (removeArticle aid st) = filter (\<lambda>p. fst p \<noteq> aid) (articles st)"
    and "chunks (removeArticle aid st) = filter (\<lambda>p. articleId (snd p) \<noteq> aid) (chunks st)"
    and "embeddings (removeArticle aid st)
       = filter (\<lambda>p. fst p \<notin> (\<lambda>c. chunk_id c @ ''_embedding'')
                         ` {c \<in> set (obj_values (chunks st)). articleId c = aid}) (embeddings st)"
    and "metadata (removeArticle aid st) = metadata st"
    and "chunksKeyedById (removeArticle aid st)"
proof -
  define st1 where "st1 = st\<lparr> articles := obj_delete (articles st) aid \<rparr>"
  define cs where "cs = filter (\<lambda>c. articleId c = aid) (obj_values (chunks st1))"
  have r: "removeArticle aid st = fold removeChunk cs st1"
    by (simp add: removeArticle_def Let_def st1_def cs_def)
  have scs: "set cs = {c \<in> set (obj_values (chunks st)). articleId c = aid}"
    by (auto simp: cs_def st1_def)
  have key: "\<And>p. p \<in> set (chunks st) \<Longrightarrow> fst p = chunk_id (snd p)"
    using k by (simp add: chunksKeyedById_def list_all_iff)
  have dk: "distinct (map fst (chunks st))"
    using k by (simp add: chunksKeyedById_def obj_keys_def)
  show "articles (removeArticle aid st) = filter (\<lambda>p. fst p \<noteq> aid) (articles st)"
    by (simp add: r fold_removeChunk st1_def obj_delete_def)
  have "chunks (removeArticle aid st) = filter (\<lambda>p. fst p \<notin> chunk_id ` set cs) (chunks st)"
    by (simp add: r fold_removeChunk st1_def)
  also have "\<dots> = filter (\<lambda>p. articleId (snd p) \<noteq> aid) (chunks st)"
  proof (rule filter_cong [OF refl])
    fix p assume m: "p \<in> set (chunks st)"
    then have sp: "snd p \<in> set (obj_values (chunks st))" by (simp add: obj_values_def)
    show "(fst p \<notin> chunk_id ` set cs) = (articleId (snd p) \<noteq> aid)"
    proof
      assume n: "fst p \<notin> chunk_id ` set cs"
      show "articleId (snd p) \<noteq> aid"
      proof
        assume "articleId (snd p) = aid"
        with sp have "snd p \<in> set cs" by (simp add: scs)
        then have "chunk_id (snd p) \<in> chunk_id ` set cs" by (rule imageI)
        with key [OF m] n show False by simp
      qed
    next
      assume ne: "articleId (snd p) \<noteq> aid"
      show "fst p \<notin> chunk_id ` set cs"
      proof
        assume "fst p \<in> chunk_id ` set cs"
        then obtain c where c: "c \<in> set cs" and e: "fst p = chunk_id c" by blast
        from c scs obtain q where q: "q \<in> set (chunks st)" and cq: "c = snd q" and ca: "articleId c = aid"
          by (auto simp: obj_values_def)
        from key [OF q] cq e have "fst q = fst p" by simp
        with m q dk have "snd q = snd p"
          by (metis eq_key_imp_eq_value prod.collapse)
        with cq ca ne show False by simp
      qed
    qed
  qed
  finally show "chunks (removeArticle aid st) = filter (\<lambda>p. articleId (snd p) \<noteq> aid) (chunks st)" .
  show "embeddings (removeArticle aid st)
       = filter (\<lambda>p. fst p \<notin> (\<lambda>c. chunk_id c @ ''_embedding'')
                         ` {c \<in> set (obj_values (chunks st)). articleId c = aid}) (embeddings st)"
    by (simp add: r fold_removeChunk st1_def scs)
  show "metadata (removeArticle aid st) = metadata st"
    by (simp add: r fold_removeChunk st1_def)
  show "chunksKeyedById (removeArticle aid st)"
    using k by (simp add: r fold_removeChunk st1_def chunksKeyedById_def list_all_iff obj_keys_def
        distinct_map_filter)
qed


lemma fold_removeArticle:
  "chunksKeyedById st \<Longrightarrow>
     articles (fold removeArticle ids st) = filter (\<lambda>p. fst p \<notin> set ids) (articles st)
     \<and> chunks (fold removeArticle ids st)
         = filter (\<lambda>p. articleId (snd p) \<notin> set ids) (chunks st)
     \<and> embeddings (fold removeArticle ids st)
         = filter (\<lambda>p. fst p \<notin> (\<lambda>c. chunk_id c @ ''_embedding'')
                           ` {c \<in> set (obj_values (chunks st)). articleId c \<in> set ids})
             (embeddings st)
     \<and> metadata (fold removeArticle ids st) = metadata st
     \<and> chunksKeyedById (fold removeArticle ids st)"
proof (induction ids arbitrary: st)
  case Nil
  then show ?case by simp
next
  case (Cons a ids)
  note eff = removeArticle_effect [OF Cons.prems, of a]
  note ih = Cons.IH [OF eff(5)]
  have vals: "set (obj_values (chunks (removeArticle a st)))
      = {c \<in> set (obj_values (chunks st)). articleId c \<noteq> a}"
    by (auto simp: eff(2) obj_values_def)
  have sets: "{c \<in> set (obj_values (chunks st)). articleId c \<in> set (a # ids)}
      = {c \<in> set (obj_values (chunks st)). articleId c = a}
        \<union> {c \<in> set (obj_values (chunks (removeArticle a st))). articleId c \<in> set ids}"
    unfolding vals by auto
  have e: "embeddings (fold removeArticle (a # ids) st)
         = filter (\<lambda>p. fst p \<notin> (\<lambda>c. chunk_id c @ ''_embedding'')
                           ` {c \<in> set (obj_values (chunks st)). articleId c \<in> set (a # ids)})
             (embeddings st)"
    unfolding sets image_Un using ih by (simp add: eff(3) conj_commute)
  have a': "articles (fold removeArticle (a # ids) st)
      = filter (\<lambda>p. fst p \<notin> set (a # ids)) (articles st)"
    using ih by (simp add: eff(1) conj_commute)
  have c: "chunks (fold removeArticle (a # ids) st)
      = filter (\<lambda>p. articleId (snd p) \<notin> set (a # ids)) (chunks st)"
    using ih by (simp add: eff(2) conj_commute)
  have m: "metadata (fold removeArticle (a # ids) st) = metadata st"
    using ih by (simp add: eff(4))
  have k: "chunksKeyedById (fold removeArticle (a # ids) st)"
    using ih by simp
  from a' c e m k show ?case by blast
qed

lemma save_store_fields:
  "articles (vectorStore (snd (save e s))) = articles (vectorStore s)
   \<and> chunks (vectorStore (snd (save e s))) = chunks (vectorStore s)
   \<and> embeddings (vectorStore (snd (save e s))) = embeddings (vectorStore s)"
  by (simp add: save_def Let_def stampMetadata_def)

lemma save_ok:
  "isLoaded s \<Longrightarrow> mkdirOk e \<Longrightarrow> writeOk e \<Longrightarrow>
     fst (save e s) = Inr () \<and> persisted (snd (save e s)) = File (vectorStore (snd (save e s)))"
  by (simp add: save_def Let_def)

text \<open>
  Claim C6.  On a loaded service whose chunks are stored under their own identifiers,
  \<^verbatim>\<open>removeArticles(ids)\<close> leaves exactly the articles whose key is not listed, exactly
  the chunks whose \<open>articleId\<close> is not listed, and exactly the embeddings whose key is
  not \<open>chunk_id @ ''_embedding''\<close> for a removed chunk; when the directory and the file
  can be written it returns normally and the file holds the resulting store.
\<close>

theorem removeArticles_cascade:
  "isLoaded s \<Longrightarrow> chunksKeyedById (vectorStore s) \<Longrightarrow>
     articles (vectorStore (snd (removeArticles e ids s)))
       = filter (\<lambda>p. fst p \<notin> set ids) (articles (vectorStore s))
     \<and> chunks (vectorStore (snd (removeArticles e ids s)))
       = filter (\<lambda>p. articleId (snd p) \<notin> set ids) (chunks (vectorStore s))
     \<and> embeddings (vectorStore (snd (removeArticles e ids s)))
       = filter (\<lambda>p. fst p \<notin> set (map (\<lambda>c. chunk_id c @ ''_embedding'')
                                       (filter (\<lambda>c. articleId c \<in> set ids)
                                          (obj_values (chunks (vectorStore s))))))
           (embeddings (vectorStore s))
     \<and> (mkdirOk e \<and> writeOk e \<longrightarrow>
          fst (removeArticles e ids s) = Inr ()
          \<and> persisted (snd (removeArticles e ids s))
              = File (vectorStore (snd (removeArticles e ids s))))"
proof -
  assume l: "isLoaded s" and k: "chunksKeyedById (vectorStore s)"
  define s2 where "s2 = s\<lparr> vectorStore := fold removeArticle ids (vectorStore s) \<rparr>"
  have r: "removeArticles e ids s = save e s2"
    using l by (simp add: removeArticles_def ensureLoaded_def Let_def s2_def)
  have l2: "isLoaded s2" using l by (simp add: s2_def)
  have v2: "vectorStore s2 = fold removeArticle ids (vectorStore s)" by (simp add: s2_def)
  show ?thesis
    unfolding r using fold_removeArticle [OF k, of ids] save_store_fields [of e s2] save_ok [OF l2, of e]
    by (simp add: v2)
qed

text \<open>
  The hypothesis on the keys of the chunks holds for the empty store and is kept by
  \<^verbatim>\<open>upsertData\<close>, by \<^verbatim>\<open>removeArticles\<close> (lemma \<open>fold_removeArticle\<close>) and by
  \<^verbatim>\<open>save\<close>.
\<close>

lemma chunksKeyedById_empty: "chunksKeyedById (createEmptyStore e)"
  by (simp add: chunksKeyedById_def createEmptyStore_def obj_keys_def)

lemma obj_set_keys: "fst ` set (obj_set m k v) = insert k (fst ` set m)"
proof (induction m)
  case Nil
  show ?case by simp
next
  case (Cons p m)
  obtain a b where p: "p = (a, b)" by (cases p)
  show ?case
  proof (cases "a = k")
    case True
    then show ?thesis by (simp add: p)
  next
    case False
    then show ?thesis using Cons.IH by (simp add: p insert_commute)
  qed
qed

lemma obj_set_distinct: "distinct (map fst m) \<Longrightarrow> distinct (map fst (obj_set m k v))"
proof (induction m)
  case Nil
  show ?case by simp
next
  case (Cons p m)
  then show ?case by (cases p) (auto simp: obj_set_keys)
qed

lemma obj_set_all: "list_all P m \<Longrightarrow> P (k, v) \<Longrightarrow> list_all P (obj_set m k v)"
  by (induction m) auto

lemma fold_obj_set_keyed:
  "distinct (map fst m) \<Longrightarrow> list_all (\<lambda>p. fst p = f (snd p)) m \<Longrightarrow>
     distinct (map fst (fold (\<lambda>c m. obj_set m (f c) c) cs m))
     \<and> list_all (\<lambda>p. fst p = f (snd p)) (fold (\<lambda>c m. obj_set m (f c) c) cs m)"
proof (induction cs arbitrary: m)
  case Nil
  then show ?case by simp
next
  case (Cons c cs)
  have "distinct (map fst (obj_set m (f c) c))" and "list_all (\<lambda>p. fst p = f (snd p)) (obj_set m (f c) c)"
    using Cons.prems by (simp_all add: obj_set_distinct obj_set_all)
  from Cons.IH [OF this] show ?case by simp
qed

lemma chunksKeyedById_upsertStore:
  "chunksKeyedById st \<Longrightarrow> chunksKeyedById (upsertStore as cs es m cSize cOverlap st)"
  using fold_obj_set_keyed [of "chunks st" chunk_id cs]
  by (simp add: chunksKeyedById_def upsertStore_def Let_def obj_keys_def)

lemma chunksKeyedById_stampMetadata: "chunksKeyedById (stampMetadata e st) = chunksKeyedById st"
  by (simp add: chunksKeyedById_def stampMetadata_def)


text \<open>
  The scenario of the claim: after upserting article 1 with two chunks and two
  embeddings into an empty store, \<^verbatim>\<open>removeArticles([1])\<close> leaves no article, no chunk
  and no embedding.
\<close>

theorem removeArticles_cascade_witness:
  "isLoaded (snd (upsertData ex_env [ex_article] [ex_chunk0, ex_chunk1]
                    [ex_embedding0, ex_embedding1] ''m'' 1000 200
                    (load ex_env (newService ex_env NoFile))))
   \<and> chunksKeyedById (vectorStore (snd (upsertData ex_env [ex_article] [ex_chunk0, ex_chunk1]
                    [ex_embedding0, ex_embedding1] ''m'' 1000 200
                    (load ex_env (newService ex_env NoFile)))))
   \<and> length (articles (vectorStore (snd (upsertData ex_env [ex_article] [ex_chunk0, ex_chunk1]
                    [ex_embedding0, ex_embedding1] ''m'' 1000 200
                    (load ex_env (newService ex_env NoFile)))))) = 1
   \<and> length (chunks (vectorStore (snd (upsertData ex_env [ex_article] [ex_chunk0, ex_chunk1]
                    [ex_embedding0, ex_embedding1] ''m'' 1000 200
                    (load ex_env (newService ex_env NoFile)))))) = 2
   \<and> length (embeddings (vectorStore (snd (upsertData ex_env [ex_article] [ex_chunk0, ex_chunk1]
                    [ex_embedding0, ex_embedding1] ''m'' 1000 200
                    (load ex_env (newService ex_env NoFile)))))) = 2
   \<and> articles (vectorStore (snd (removeArticles ex_env [1]
         (snd (upsertData ex_env [ex_article] [ex_chunk0, ex_chunk1]
                    [ex_embedding0, ex_embedding1] ''m'' 1000 200
                    (load ex_env (newService ex_env NoFile))))))) = []
   \<and> chunks (vectorStore (snd (removeArticles ex_env [1]
         (snd (upsertData ex_env [ex_article] [ex_chunk0, ex_chunk1]
                    [ex_embedding0, ex_embedding1] ''m'' 1000 200
                    (load ex_env (newService ex_env NoFile))))))) = []
   \<and> embeddings (vectorStore (snd (removeArticles ex_env [1]
         (snd (upsertData ex_env [ex_article] [ex_chunk0, ex_chunk1]
                    [ex_embedding0, ex_embedding1] ''m'' 1000 200
                    (load ex_env (newService ex_env NoFile))))))) = []
   \<and> fst (removeArticles ex_env [1]
         (snd (upsertData ex_env [ex_article] [ex_chunk0, ex_chunk1]
                    [ex_embedding0, ex_embedding1] ''m'' 1000 200
                    (load ex_env (newService ex_env NoFile))))) = Inr ()"
proof -
  let ?s0 = "snd (upsertData ex_env [ex_article] [ex_chunk0, ex_chunk1]
                    [ex_embedding0, ex_embedding1] ''m'' 1000 200
                    (load ex_env (newService ex_env NoFile)))"
  note ev = upsertData_def ensureLoaded_def load_def newService_def save_def Let_def
    upsertStore_def stampMetadata_def createEmptyStore_def
  have l: "isLoaded ?s0"
    by (simp add: ev)
  have a: "articles (vectorStore ?s0) = [(1, ex_article)]"
    by (simp add: ev ex_article_def)
  have c: "chunks (vectorStore ?s0)
      = [(''article_1_chunk_0'', ex_chunk0), (''article_1_chunk_1'', ex_chunk1)]"
    by (simp add: ev ex_chunk0_def ex_chunk1_def)
  have em: "embeddings (vectorStore ?s0)
      = [(''article_1_chunk_0_embedding'', ex_embedding0),
         (''article_1_chunk_1_embedding'', ex_embedding1)]"
    by (simp add: ev ex_embedding0_def ex_embedding1_def)
  have k: "chunksKeyedById (vectorStore ?s0)"
    unfolding chunksKeyedById_def c by (simp add: obj_keys_def ex_chunk0_def ex_chunk1_def)
  have w: "mkdirOk ex_env \<and> writeOk ex_env"
    by (simp add: ex_env_def)
  from removeArticles_cascade [OF l k, of ex_env "[1]"] w
  have r: "articles (vectorStore (snd (removeArticles ex_env [1] ?s0))) = []
     \<and> chunks (vectorStore (snd (removeArticles ex_env [1] ?s0))) = []
     \<and> embeddings (vectorStore (snd (removeArticles ex_env [1] ?s0))) = []
     \<and> fst (removeArticles ex_env [1] ?s0) = Inr ()"
    unfolding a c em by (simp add: obj_values_def ex_chunk0_def ex_chunk1_def)
  from l k a c em r show ?thesis by simp
qed

section \<open>The retry policy\<close>








section \<open>The text splitter: termination and chunk sizes\<close>

lemma splitLoop_invariant:
  assumes "P st"
    and "\<And>st. P st \<Longrightarrow> s_start st < int (length t) \<Longrightarrow> s_iterations st < maxIt \<Longrightarrow>
            P (splitStep t opts st)"
  shows "P (splitLoop t opts maxIt st)"
  using assms
proof (induction t opts maxIt st rule: splitLoop.induct)
  case (1 t opts maxIt st)
  show ?case
  proof (cases "s_start st < int (length t) \<and> s_iterations st < maxIt")
    case False
    then have "splitLoop t opts maxIt st = st" by (auto simp: splitLoop.simps)
    with "1.prems" show ?thesis by simp
  next
    case True
    then have g: "s_start st < int (length t)" "s_iterations st < maxIt" by simp_all
    have p: "P (splitStep t opts st)" using "1.prems" g by blast
    show ?thesis
    proof (cases "s_start (splitStep t opts st) \<ge> int (length t)")
      case True
      with g have "splitLoop t opts maxIt st = splitStep t opts st"
        by (simp add: splitLoop.simps [of t opts maxIt st] Let_def)
      with p show ?thesis by simp
    next
      case False
      with g have e: "splitLoop t opts maxIt st = splitLoop t opts maxIt (splitStep t opts st)"
        by (simp add: splitLoop.simps [of t opts maxIt st] Let_def)
      from g False have "\<not> int (length t) \<le> s_start (splitStep t opts st)" by simp
      from "1.IH" [OF _ refl this p "1.prems"(2)] g show ?thesis unfolding e by simp
    qed
  qed
qed

lemma splitLoop_exit:
  "int (length t) \<le> s_start (splitLoop t opts maxIt st) \<or> maxIt \<le> s_iterations (splitLoop t opts maxIt st)"
proof (induction t opts maxIt st rule: splitLoop.induct)
  case (1 t opts maxIt st)
  show ?case
  proof (cases "s_start st < int (length t) \<and> s_iterations st < maxIt")
    case False
    then have "splitLoop t opts maxIt st = st" by (auto simp: splitLoop.simps)
    with False show ?thesis by auto
  next
    case True
    then have g: "s_start st < int (length t)" "s_iterations st < maxIt" by simp_all
    show ?thesis
    proof (cases "s_start (splitStep t opts st) \<ge> int (length t)")
      case True
      with g have "splitLoop t opts maxIt st = splitStep t opts st"
        by (simp add: splitLoop.simps [of t opts maxIt st] Let_def)
      with True show ?thesis by simp
    next
      case False
      with g have e: "splitLoop t opts maxIt st = splitLoop t opts maxIt (splitStep t opts st)"
        by (simp add: splitLoop.simps [of t opts maxIt st] Let_def)
      from False have "\<not> int (length t) \<le> s_start (splitStep t opts st)" by simp
      from "1.IH" [OF _ refl this] g show ?thesis unfolding e by simp
    qed
  qed
qed


lemma sentenceScan_le:
  "lastEnd \<le> targetPos + 1 \<Longrightarrow> sentenceScan t targetPos i lastEnd \<le> targetPos + 1"
proof (induction t targetPos i lastEnd rule: sentenceScan.induct)
  case (1 t targetPos i lastEnd)
  show ?case
  proof (cases "i + 1 < length t")
    case False
    then show ?thesis using "1.prems" by (auto simp: sentenceScan.simps [of t targetPos i])
  next
    case True
    show ?thesis
    proof (cases "isSentenceEnder (t ! i) \<and> isWhitespace (t ! (i + 1))")
      case False
      with True have e: "sentenceScan t targetPos i lastEnd = sentenceScan t targetPos (i + 1) lastEnd"
        by (auto simp: sentenceScan.simps [of t targetPos i])
      from "1.IH"(2) [OF True False "1.prems"] show ?thesis unfolding e .
    next
      case m: True
      show ?thesis
      proof (cases "int i > targetPos")
        case True
        with \<open>i + 1 < length t\<close> m "1.prems" show ?thesis
          by (auto simp: sentenceScan.simps [of t targetPos i])
      next
        case False
        then have le: "int i + 1 \<le> targetPos + 1" by simp
        from \<open>i + 1 < length t\<close> m False
        have e: "sentenceScan t targetPos i lastEnd = sentenceScan t targetPos (i + 2) (int i + 1)"
          by (auto simp: sentenceScan.simps [of t targetPos i])
        from "1.IH"(1) [OF \<open>i + 1 < length t\<close> m False le] show ?thesis unfolding e .
      qed
    qed
  qed
qed

lemma findSentenceEnd_le: "0 \<le> targetPos \<Longrightarrow> findSentenceEnd t targetPos minPos \<le> targetPos + 1"
  using sentenceScan_le [of "- 1" targetPos t "nat minPos"]
  by (auto simp: findSentenceEnd_def Let_def)

lemma wordScan_le: "i \<le> targetPos \<Longrightarrow> wordScan t targetPos minPos i \<le> targetPos"
proof (induction t targetPos minPos i rule: wordScan.induct)
  case (1 t targetPos minPos i)
  show ?case
  proof (cases "i > minPos")
    case False
    then show ?thesis by (simp add: wordScan.simps [of t targetPos minPos i])
  next
    case True
    show ?thesis
    proof (cases "0 \<le> i \<and> i < int (length t) \<and> isWhitespace (t ! nat i)")
      case w: True
      with True "1.prems" show ?thesis by (simp add: wordScan.simps [of t targetPos minPos i])
    next
      case False
      with True "1.IH" "1.prems" show ?thesis
        by (simp add: wordScan.simps [of t targetPos minPos i])
    qed
  qed
qed

lemma findWordEnd_le: "findWordEnd t targetPos minPos \<le> targetPos"
  by (simp add: findWordEnd_def wordScan_le)

lemma windowEnd_bounds:
  assumes "0 < opt_size opts" and "0 \<le> start"
  shows "start < windowEnd t opts start"
    and "windowEnd t opts start \<le> start + opt_size opts + 1"
    and "\<not> preserveSentences opts \<Longrightarrow> windowEnd t opts start \<le> start + opt_size opts"
    and "\<not> preserveSentences opts \<Longrightarrow> \<not> preserveWords opts \<Longrightarrow>
           windowEnd t opts start = start + opt_size opts"
proof -
  show "start < windowEnd t opts start"
    using assms by (simp add: windowEnd_def Let_def)
  show "windowEnd t opts start \<le> start + opt_size opts + 1"
    using assms findSentenceEnd_le [of "start + opt_size opts" t start]
      findWordEnd_le [of t "start + opt_size opts" start]
    by (simp add: windowEnd_def Let_def)
  show "\<not> preserveSentences opts \<Longrightarrow> windowEnd t opts start \<le> start + opt_size opts"
    using findWordEnd_le [of t "start + opt_size opts" start]
    by (simp add: windowEnd_def Let_def)
  show "\<not> preserveSentences opts \<Longrightarrow> \<not> preserveWords opts \<Longrightarrow>
           windowEnd t opts start = start + opt_size opts"
    by (simp add: windowEnd_def Let_def)
qed

lemma splitStep_fields:
  "s_iterations (splitStep t opts st) = s_iterations st + 1"
  "s_start (splitStep t opts st)
     = (if windowEnd t opts (s_start st) - opt_overlap opts \<le> s_start st
        then s_start st + max 1 (opt_size opts div 2)
        else windowEnd t opts (s_start st) - opt_overlap opts)"
  "s_forced (splitStep t opts st)
     = (if windowEnd t opts (s_start st) - opt_overlap opts \<le> s_start st
        then s_forced st + 1 else s_forced st)"
  "s_chunks (splitStep t opts st)
     = (if length (trim (slice t (s_start st) (windowEnd t opts (s_start st)))) > 0
        then s_chunks st @ [slice t (s_start st) (windowEnd t opts (s_start st))]
        else s_chunks st)"
  "s_spans (splitStep t opts st)
     = (if length (trim (slice t (s_start st) (windowEnd t opts (s_start st)))) > 0
        then s_spans st @ [(s_start st, windowEnd t opts (s_start st))]
        else s_spans st)"
  by (simp_all add: splitStep_def Let_def)

lemma splitStep_progress: "s_start st < s_start (splitStep t opts st)"
  by (simp add: splitStep_fields max_def)


lemma maxIterations_ge: "100 \<le> maxIterations t opts"
proof -
  have "0 \<le> real (length t) / real_of_int (max 1 (opt_size opts - opt_overlap opts))"
    by simp
  then have "0 \<le> \<lceil>real (length t) / real_of_int (max 1 (opt_size opts - opt_overlap opts))\<rceil>"
    by linarith
  then show ?thesis by (simp add: maxIterations_def)
qed

lemma splitRun_counters:
  "0 \<le> s_iterations (splitRun t opts)
   \<and> s_iterations (splitRun t opts) \<le> s_start (splitRun t opts)
   \<and> s_iterations (splitRun t opts) \<le> maxIterations t opts
   \<and> (\<forall>c \<in> set (s_chunks (splitRun t opts)). length (trim c) > 0)"
  unfolding splitRun_def
proof (rule splitLoop_invariant)
  show "0 \<le> s_iterations splitInit \<and> s_iterations splitInit \<le> s_start splitInit
      \<and> s_iterations splitInit \<le> maxIterations t opts
      \<and> (\<forall>c \<in> set (s_chunks splitInit). length (trim c) > 0)"
    using maxIterations_ge [of t opts] by (simp add: splitInit_def)
next
  fix st :: splitState
  assume inv: "0 \<le> s_iterations st \<and> s_iterations st \<le> s_start st
      \<and> s_iterations st \<le> maxIterations t opts
      \<and> (\<forall>c \<in> set (s_chunks st). length (trim c) > 0)"
    and g: "s_iterations st < maxIterations t opts"
  have p: "s_start st < s_start (splitStep t opts st)" by (rule splitStep_progress)
  have c: "\<forall>c \<in> set (s_chunks (splitStep t opts st)). length (trim c) > 0"
    using inv by (simp add: splitStep_fields(4))
  from inv g p c
  show "0 \<le> s_iterations (splitStep t opts st)
      \<and> s_iterations (splitStep t opts st) \<le> s_start (splitStep t opts st)
      \<and> s_iterations (splitStep t opts st) \<le> maxIterations t opts
      \<and> (\<forall>c \<in> set (s_chunks (splitStep t opts st)). length (trim c) > 0)"
    by (simp add: splitStep_fields(1))
qed

text \<open>
  Claim C4.  \<^verbatim>\<open>splitText\<close> is a total function: the loop is defined by recursion on
  the iterations left, so every call returns or throws.  For a valid configuration the
  loop ends after at most \<open>maxIterations\<close> iterations
  (\<open>ceil (length / max 1 (size - overlap)) + 100\<close>); every iteration moves \<open>start\<close>
  forward by at least 1, by \<open>max 1 (size div 2)\<close> when \<open>end - overlap\<close> does not pass
  \<open>start\<close>; if fewer iterations than the cap were used, \<open>start\<close> has reached the end
  of the text and the chunks are returned; if the cap was reached, the overflow error is
  thrown.
\<close>

theorem splitText_terminates:
  "0 < opt_size opts \<Longrightarrow> 0 \<le> opt_overlap opts \<Longrightarrow> opt_overlap opts < opt_size opts \<Longrightarrow>
     0 \<le> s_iterations (splitRun t opts)
     \<and> s_iterations (splitRun t opts) \<le> maxIterations t opts
     \<and> s_iterations (splitRun t opts) \<le> s_start (splitRun t opts)
     \<and> (s_iterations (splitRun t opts) < maxIterations t opts \<longrightarrow>
          int (length t) \<le> s_start (splitRun t opts)
          \<and> splitText t opts = Inr (s_chunks (splitRun t opts)))
     \<and> (s_iterations (splitRun t opts) = maxIterations t opts \<longrightarrow>
          splitText t opts = Inl ChunkingOverflow)
     \<and> (\<forall>st. s_start st + 1 \<le> s_start (splitStep t opts st)
           \<and> s_iterations (splitStep t opts st) = s_iterations st + 1
           \<and> (windowEnd t opts (s_start st) - opt_overlap opts \<le> s_start st \<longrightarrow>
                s_start (splitStep t opts st) = s_start st + max 1 (opt_size opts div 2)))"
proof -
  assume v: "0 < opt_size opts" "0 \<le> opt_overlap opts" "opt_overlap opts < opt_size opts"
  note c = splitRun_counters [of t opts]
  have ex: "int (length t) \<le> s_start (splitRun t opts)
      \<or> maxIterations t opts \<le> s_iterations (splitRun t opts)"
    unfolding splitRun_def by (rule splitLoop_exit)
  have f: "filter (\<lambda>c. length (trim c) > 0) (s_chunks (splitRun t opts)) = s_chunks (splitRun t opts)"
    using c by (simp add: filter_id_conv)
  have ret: "int (length t) \<le> s_start (splitRun t opts)
          \<and> splitText t opts = Inr (s_chunks (splitRun t opts))"
    if "s_iterations (splitRun t opts) < maxIterations t opts"
    using that ex v f by (simp add: splitText_def Let_def)
  have ovf: "splitText t opts = Inl ChunkingOverflow"
    if "s_iterations (splitRun t opts) = maxIterations t opts"
    using that v by (simp add: splitText_def Let_def)
  have step: "\<forall>st. s_start st + 1 \<le> s_start (splitStep t opts st)
           \<and> s_iterations (splitStep t opts st) = s_iterations st + 1
           \<and> (windowEnd t opts (s_start st) - opt_overlap opts \<le> s_start st \<longrightarrow>
                s_start (splitStep t opts st) = s_start st + max 1 (opt_size opts div 2))"
    using splitStep_progress [of _ t opts] by (simp add: splitStep_fields(1,2))
  from c ret ovf step show ?thesis by blast
qed


lemma splitLoop_unroll:
  "s_start st < int (length t) \<Longrightarrow> s_iterations st < maxIt \<Longrightarrow> splitStep t opts st = st' \<Longrightarrow>
     splitLoop t opts maxIt st
       = (if int (length t) \<le> s_start st' then st' else splitLoop t opts maxIt st')"
  by (simp add: splitLoop.simps [of t opts maxIt st] Let_def)

lemmas window_eval = windowEnd_def findSentenceEnd_def findWordEnd_def sentenceScan.simps
  wordScan.simps isSentenceEnder_def isWhitespace_def Let_def

lemma sentence_step1:
  "splitStep ''ab. cd'' ex_sentenceOpts
     \<lparr> s_chunks = [], s_spans = [], s_start = 0, s_iterations = 0, s_forced = 0 \<rparr>
   = \<lparr> s_chunks = [''ab.''], s_spans = [(0, 3)], s_start = 3, s_iterations = 1, s_forced = 0 \<rparr>"
  apply (simp add: splitStep_def ex_sentenceOpts_def window_eval)
  apply (simp add: slice_def sliceIndex_def)
  apply (simp add: trim_def isWhitespace_def)
  done

lemma sentence_step2:
  "splitStep ''ab. cd'' ex_sentenceOpts
     \<lparr> s_chunks = [''ab.''], s_spans = [(0, 3)], s_start = 3, s_iterations = 1, s_forced = 0 \<rparr>
   = \<lparr> s_chunks = [''ab.'', '' c''], s_spans = [(0, 3), (3, 5)], s_start = 5, s_iterations = 2,
       s_forced = 0 \<rparr>"
  apply (simp add: splitStep_def ex_sentenceOpts_def window_eval)
  apply (simp add: slice_def sliceIndex_def)
  apply (simp add: trim_def isWhitespace_def)
  done

lemma sentence_step3:
  "splitStep ''ab. cd'' ex_sentenceOpts
     \<lparr> s_chunks = [''ab.'', '' c''], s_spans = [(0, 3), (3, 5)], s_start = 5, s_iterations = 2,
       s_forced = 0 \<rparr>
   = \<lparr> s_chunks = [''ab.'', '' c'', ''d''], s_spans = [(0, 3), (3, 5), (5, 7)], s_start = 7,
       s_iterations = 3, s_forced = 0 \<rparr>"
  apply (simp add: splitStep_def ex_sentenceOpts_def window_eval)
  apply (simp add: slice_def sliceIndex_def)
  apply (simp add: trim_def isWhitespace_def)
  done

lemma sentence_maxIterations: "maxIterations ''ab. cd'' ex_sentenceOpts = 103"
  by (simp add: maxIterations_def ex_sentenceOpts_def)

lemma sentence_run:
  "splitRun ''ab. cd'' ex_sentenceOpts
   = \<lparr> s_chunks = [''ab.'', '' c'', ''d''], s_spans = [(0, 3), (3, 5), (5, 7)], s_start = 7,
       s_iterations = 3, s_forced = 0 \<rparr>"
  unfolding splitRun_def sentence_maxIterations splitInit_def
  apply (subst splitLoop_unroll [OF _ _ sentence_step1], simp, simp)
  apply (subst splitLoop_unroll [OF _ _ sentence_step2], simp, simp)
  apply (subst splitLoop_unroll [OF _ _ sentence_step3], simp, simp)
  apply simp
  done


text \<open>
  A run of three iterations under a cap of 103.
\<close>

theorem splitText_terminates_witness:
  "0 < opt_size ex_sentenceOpts \<and> 0 \<le> opt_overlap ex_sentenceOpts
   \<and> opt_overlap ex_sentenceOpts < opt_size ex_sentenceOpts
   \<and> s_iterations (splitRun ''ab. cd'' ex_sentenceOpts) = 3
   \<and> maxIterations ''ab. cd'' ex_sentenceOpts = 103
   \<and> int (length ''ab. cd'') \<le> s_start (splitRun ''ab. cd'' ex_sentenceOpts)
   \<and> splitText ''ab. cd'' ex_sentenceOpts = Inr (s_chunks (splitRun ''ab. cd'' ex_sentenceOpts))"
proof -
  have v: "0 < opt_size ex_sentenceOpts" "0 \<le> opt_overlap ex_sentenceOpts"
    "opt_overlap ex_sentenceOpts < opt_size ex_sentenceOpts"
    by (simp_all add: ex_sentenceOpts_def)
  have i: "s_iterations (splitRun ''ab. cd'' ex_sentenceOpts) = 3"
    by (simp add: sentence_run)
  from splitText_terminates [OF v, of "''ab. cd''"] i sentence_maxIterations v
  show ?thesis by simp
qed

lemma slice_length: "0 \<le> a \<Longrightarrow> int (length (slice t a b)) \<le> b - a \<or> b \<le> a"
  by (auto simp: slice_def sliceIndex_def Let_def)

lemma splitRun_chunk_bound:
  assumes sz: "0 < opt_size opts"
  shows "0 \<le> s_start (splitRun t opts)
     \<and> (\<forall>c \<in> set (s_chunks (splitRun t opts)).
           int (length c) \<le> opt_size opts + 1
           \<and> (\<not> preserveSentences opts \<longrightarrow> int (length c) \<le> opt_size opts))"
  unfolding splitRun_def
proof (rule splitLoop_invariant)
  show "0 \<le> s_start splitInit
     \<and> (\<forall>c \<in> set (s_chunks splitInit).
           int (length c) \<le> opt_size opts + 1
           \<and> (\<not> preserveSentences opts \<longrightarrow> int (length c) \<le> opt_size opts))"
    by (simp add: splitInit_def)
next
  fix st :: splitState
  assume inv: "0 \<le> s_start st
     \<and> (\<forall>c \<in> set (s_chunks st).
           int (length c) \<le> opt_size opts + 1
           \<and> (\<not> preserveSentences opts \<longrightarrow> int (length c) \<le> opt_size opts))"
  then have s0: "0 \<le> s_start st" by simp
  note wb = windowEnd_bounds [OF sz s0, of t]
  from slice_length [OF s0, of t "windowEnd t opts (s_start st)"] wb(1)
  have sl: "int (length (slice t (s_start st) (windowEnd t opts (s_start st))))
      \<le> windowEnd t opts (s_start st) - s_start st"
    by simp
  from sl wb(2) have b1: "int (length (slice t (s_start st) (windowEnd t opts (s_start st))))
      \<le> opt_size opts + 1" by simp
  have b2: "int (length (slice t (s_start st) (windowEnd t opts (s_start st)))) \<le> opt_size opts"
    if "\<not> preserveSentences opts"
    using sl wb(3) [OF that] by simp
  have p: "s_start st < s_start (splitStep t opts st)" by (rule splitStep_progress)
  from inv b1 b2 p
  show "0 \<le> s_start (splitStep t opts st)
     \<and> (\<forall>c \<in> set (s_chunks (splitStep t opts st)).
           int (length c) \<le> opt_size opts + 1
           \<and> (\<not> preserveSentences opts \<longrightarrow> int (length c) \<le> opt_size opts))"
    by (auto simp: splitStep_fields(4))
qed

lemma splitText_chunk_bound:
  "splitText t opts = Inr cs \<Longrightarrow> c \<in> set cs \<Longrightarrow>
     int (length c) \<le> opt_size opts + 1
     \<and> (\<not> preserveSentences opts \<longrightarrow> int (length c) \<le> opt_size opts)"
proof -
  assume r: "splitText t opts = Inr cs" and m: "c \<in> set cs"
  from r have sz: "0 < opt_size opts" by (auto simp: splitText_def split: if_splits)
  from r m have "c \<in> set (s_chunks (splitRun t opts))"
    by (auto simp: splitText_def Let_def split: if_splits)
  with splitRun_chunk_bound [OF sz, of t] show ?thesis by blast
qed

text \<open>
  Whenever a sentence terminator followed by whitespace sits exactly at the provisional
  end \<open>start + size\<close>, sentence seeking moves the end one position further, so the
  window is \<open>size + 1\<close> long.
\<close>

lemma sentenceScan_past:
  "targetPos < int i \<Longrightarrow> sentenceScan t targetPos i lastEnd = lastEnd"
proof (induction t targetPos i lastEnd rule: sentenceScan.induct)
  case (1 t targetPos i lastEnd)
  show ?case
  proof (cases "i + 1 < length t")
    case False
    then show ?thesis by (auto simp: sentenceScan.simps [of t targetPos i])
  next
    case True
    show ?thesis
    proof (cases "isSentenceEnder (t ! i) \<and> isWhitespace (t ! (i + 1))")
      case m: True
      with True "1.prems" show ?thesis by (auto simp: sentenceScan.simps [of t targetPos i])
    next
      case False
      with True have e: "sentenceScan t targetPos i lastEnd = sentenceScan t targetPos (i + 1) lastEnd"
        by (auto simp: sentenceScan.simps [of t targetPos i])
      from "1.prems" have "targetPos < int (i + 1)" by simp
      from "1.IH"(2) [OF True False this] show ?thesis unfolding e .
    qed
  qed
qed

lemma ender_not_whitespace: "isSentenceEnder c \<Longrightarrow> \<not> isWhitespace c"
  by (auto simp: isSentenceEnder_def isWhitespace_def)

lemma sentenceScan_at_target:
  "i \<le> k \<Longrightarrow> k + 1 < length t \<Longrightarrow> isSentenceEnder (t ! k) \<Longrightarrow> isWhitespace (t ! (k + 1)) \<Longrightarrow>
     sentenceScan t (int k) i lastEnd = int k + 1"
proof (induction t "int k" i lastEnd rule: sentenceScan.induct)
  case (1 t i lastEnd)
  from "1.prems" have il: "i + 1 < length t" by simp
  show ?case
  proof (cases "isSentenceEnder (t ! i) \<and> isWhitespace (t ! (i + 1))")
    case False
    with "1.prems" have "i \<noteq> k" by auto
    with "1.prems" have le: "i + 1 \<le> k" by simp
    from il False
    have e: "sentenceScan t (int k) i lastEnd = sentenceScan t (int k) (i + 1) lastEnd"
      by (auto simp: sentenceScan.simps [of t "int k" i])
    from "1.hyps"(2) [OF il False le "1.prems"(2,3,4)] show ?thesis unfolding e .
  next
    case m: True
    from "1.prems" have ng: "\<not> int i > int k" by simp
    from il m ng
    have e: "sentenceScan t (int k) i lastEnd = sentenceScan t (int k) (i + 2) (int i + 1)"
      by (auto simp: sentenceScan.simps [of t "int k" i])
    show ?thesis
    proof (cases "i = k")
      case True
      then have "int k < int (i + 2)" by simp
      from sentenceScan_past [OF this] True show ?thesis unfolding e by simp
    next
      case False
      from m "1.prems"(3) ender_not_whitespace have "i + 1 \<noteq> k" by blast
      with False "1.prems"(1) have le: "i + 2 \<le> k" by simp
      from "1.hyps"(1) [OF il m ng le "1.prems"(2,3,4)] show ?thesis unfolding e .
    qed
  qed
qed

lemma windowEnd_sentence_at_target:
  assumes "0 < opt_size opts" "preserveSentences opts"
    and "nat (int start + opt_size opts) + 1 < length t"
    and "isSentenceEnder (t ! nat (int start + opt_size opts))"
    and "isWhitespace (t ! (nat (int start + opt_size opts) + 1))"
  shows "windowEnd t opts (int start) = int start + opt_size opts + 1"
proof -
  define k where "k = nat (int start + opt_size opts)"
  have ik: "int k = int start + opt_size opts" using assms(1) by (simp add: k_def)
  have sk: "start \<le> k" using assms(1) by (simp add: k_def)
  from sentenceScan_at_target [OF sk, of t "- 1"] assms(3,4,5)
  have "sentenceScan t (int k) start (- 1) = int k + 1" by (simp add: k_def)
  then have "findSentenceEnd t (int start + opt_size opts) (int start) = int start + opt_size opts + 1"
    using assms(1) by (simp add: findSentenceEnd_def Let_def ik)
  with assms show ?thesis by (simp add: windowEnd_def Let_def)
qed

text \<open>
  Claim C2 fails on the code.  With \<open>size = 2\<close> and sentence seeking switched on, the
  text \<open>''ab. cd''\<close> has its full stop at index 2, the provisional end; the scan accepts a
  match that begins at the target position and returns the position after it, so the
  first chunk is \<open>''ab.''\<close>, of length 3.  (Lemma \<open>splitText_chunk_bound\<close> above: a chunk
  never exceeds \<open>size + 1\<close>, and never exceeds \<open>size\<close> when sentence seeking is off;
  lemma \<open>windowEnd_sentence_at_target\<close>: the same overshoot occurs for every size.)
\<close>

theorem splitText_sentence_overshoot:
  "splitText ''ab. cd'' ex_sentenceOpts = Inr [''ab.'', '' c'', ''d'']
   \<and> opt_size ex_sentenceOpts = 2
   \<and> length ''ab.'' = 3"
proof -
  have t1: "length (trim ''ab.'') > 0" by (simp add: trim_def isWhitespace_def)
  have t2: "length (trim '' c'') > 0" by (simp add: trim_def isWhitespace_def)
  have t3: "length (trim ''d'') > 0" by (simp add: trim_def isWhitespace_def)
  have "splitText ''ab. cd'' ex_sentenceOpts = Inr [''ab.'', '' c'', ''d'']"
    unfolding splitText_def sentence_run sentence_maxIterations Let_def
    using t1 t2 t3 by (simp add: ex_sentenceOpts_def)
  then show ?thesis by (simp add: ex_sentenceOpts_def)
qed

section \<open>The text splitter: coverage of the source text\<close>

lemma trim_Nil: "(trim s = []) = (\<forall>c \<in> set s. isWhitespace c)"
proof
  assume e: "trim s = []"
  show "\<forall>c \<in> set s. isWhitespace c"
  proof (rule ccontr)
    assume "\<not> (\<forall>c \<in> set s. isWhitespace c)"
    then have ne: "dropWhile isWhitespace s \<noteq> []" by (simp add: dropWhile_eq_Nil_conv)
    then have "\<not> isWhitespace (hd (dropWhile isWhitespace s))" by (rule hd_dropWhile)
    moreover from ne have "hd (dropWhile isWhitespace s) \<in> set (rev (dropWhile isWhitespace s))"
      by simp
    ultimately have "dropWhile isWhitespace (rev (dropWhile isWhitespace s)) \<noteq> []"
      unfolding dropWhile_eq_Nil_conv by blast
    with e show False by (simp add: trim_def)
  qed
next
  assume "\<forall>c \<in> set s. isWhitespace c"
  then have "dropWhile isWhitespace s = []" by simp
  then show "trim s = []" by (simp only: trim_def rev.simps dropWhile.simps)
qed

lemma slice_mem:
  assumes "0 \<le> a" "a \<le> int i" "int i < b" "i < length t"
  shows "t ! i \<in> set (slice t a b)"
proof -
  define f where "f = min (nat a) (length t)"
  define g where "g = min (nat b) (length t)"
  have s: "slice t a b = take (g - f) (drop f t)"
    using assms by (simp add: slice_def sliceIndex_def f_def g_def Let_def)
  have fi: "f \<le> i" using assms by (simp add: f_def)
  have ig: "i < g" using assms by (simp add: g_def)
  have l: "i - f < length (take (g - f) (drop f t))" using fi ig assms(4) by (simp add: less_diff_conv2)
  have "take (g - f) (drop f t) ! (i - f) = t ! i" using fi ig assms(4) by simp
  with nth_mem [OF l] show ?thesis by (simp add: s)
qed

lemma covered_append: "covered (xs @ ys) i = (covered xs i \<or> covered ys i)"
  by (simp add: covered_def)

lemma splitRun_coverage_inv:
  assumes sz: "0 < opt_size opts" and ov: "0 \<le> opt_overlap opts"
  shows "0 \<le> s_start (splitRun t opts)
     \<and> s_chunks (splitRun t opts) = map (\<lambda>(a, b). slice t a b) (s_spans (splitRun t opts))
     \<and> (s_forced (splitRun t opts) = 0 \<longrightarrow>
          (\<forall>i. i < length t \<and> int i < s_start (splitRun t opts) \<longrightarrow>
                 covered (s_spans (splitRun t opts)) (int i) \<or> isWhitespace (t ! i)))"
  unfolding splitRun_def
proof (rule splitLoop_invariant)
  show "0 \<le> s_start splitInit
     \<and> s_chunks splitInit = map (\<lambda>(a, b). slice t a b) (s_spans splitInit)
     \<and> (s_forced splitInit = 0 \<longrightarrow>
          (\<forall>i. i < length t \<and> int i < s_start splitInit \<longrightarrow>
                 covered (s_spans splitInit) (int i) \<or> isWhitespace (t ! i)))"
    by (simp add: splitInit_def)
next
  fix st :: splitState
  assume inv: "0 \<le> s_start st
     \<and> s_chunks st = map (\<lambda>(a, b). slice t a b) (s_spans st)
     \<and> (s_forced st = 0 \<longrightarrow>
          (\<forall>i. i < length t \<and> int i < s_start st \<longrightarrow>
                 covered (s_spans st) (int i) \<or> isWhitespace (t ! i)))"
  define s where "s = s_start st"
  define e where "e = windowEnd t opts s"
  define st' where "st' = splitStep t opts st"
  from inv have s0: "0 \<le> s" by (simp add: s_def)
  have p: "s < s_start st'" unfolding s_def st'_def by (rule splitStep_progress)
  have c: "s_chunks st' = map (\<lambda>(a, b). slice t a b) (s_spans st')"
    using inv by (simp add: st'_def splitStep_fields(4,5))
  have cov: "covered (s_spans st') (int i) \<or> isWhitespace (t ! i)"
    if f0: "s_forced st' = 0" and il: "i < length t" and ii: "int i < s_start st'" for i
  proof -
    from f0 have nf: "\<not> e - opt_overlap opts \<le> s" and f: "s_forced st = 0"
      by (auto simp: st'_def splitStep_fields(3) e_def s_def split: if_splits)
    from nf have st: "s_start st' = e - opt_overlap opts"
      by (simp add: st'_def splitStep_fields(2) e_def s_def)
    show ?thesis
    proof (cases "int i < s")
      case True
      with inv f il have "covered (s_spans st) (int i) \<or> isWhitespace (t ! i)"
        by (simp add: s_def)
      then show ?thesis
        by (auto simp: st'_def splitStep_fields(5) covered_append)
    next
      case False
      then have lo: "s \<le> int i" by simp
      from ii st ov have hi: "int i < e" by simp
      show ?thesis
      proof (cases "length (trim (slice t s e)) > 0")
        case True
        then have "s_spans st' = s_spans st @ [(s, e)]"
          by (simp add: st'_def splitStep_fields(5) e_def s_def)
        with lo hi show ?thesis by (simp add: covered_append covered_def)
      next
        case False
        then have "\<forall>c \<in> set (slice t s e). isWhitespace c" by (simp add: trim_Nil)
        with slice_mem [OF s0 lo hi il] show ?thesis by blast
      qed
    qed
  qed
  from s0 p c cov
  show "0 \<le> s_start (splitStep t opts st)
     \<and> s_chunks (splitStep t opts st)
         = map (\<lambda>(a, b). slice t a b) (s_spans (splitStep t opts st))
     \<and> (s_forced (splitStep t opts st) = 0 \<longrightarrow>
          (\<forall>i. i < length t \<and> int i < s_start (splitStep t opts st) \<longrightarrow>
                 covered (s_spans (splitStep t opts st)) (int i) \<or> isWhitespace (t ! i)))"
    unfolding st'_def [symmetric] by auto
qed


lemma splitRun_plain:
  assumes sz: "0 < opt_size opts" and ov: "0 \<le> opt_overlap opts"
    and lt: "opt_overlap opts < opt_size opts"
    and nw: "\<not> preserveWords opts" and ns: "\<not> preserveSentences opts"
  shows "s_forced (splitRun t opts) = 0 \<and> s_iterations (splitRun t opts) < maxIterations t opts"
proof -
  define d where "d = opt_size opts - opt_overlap opts"
  have d1: "1 \<le> d" using lt by (simp add: d_def)
  have inv: "s_forced (splitRun t opts) = 0 \<and> 0 \<le> s_start (splitRun t opts)
      \<and> s_start (splitRun t opts) = s_iterations (splitRun t opts) * d
      \<and> (s_iterations (splitRun t opts) = 0
          \<or> (s_iterations (splitRun t opts) - 1) * d < int (length t))"
    unfolding splitRun_def
  proof (rule splitLoop_invariant)
    show "s_forced splitInit = 0 \<and> 0 \<le> s_start splitInit
      \<and> s_start splitInit = s_iterations splitInit * d
      \<and> (s_iterations splitInit = 0 \<or> (s_iterations splitInit - 1) * d < int (length t))"
      by (simp add: splitInit_def)
  next
    fix st :: splitState
    assume i: "s_forced st = 0 \<and> 0 \<le> s_start st
      \<and> s_start st = s_iterations st * d
      \<and> (s_iterations st = 0 \<or> (s_iterations st - 1) * d < int (length t))"
      and g: "s_start st < int (length t)"
    from i have s0: "0 \<le> s_start st" by simp
    have w: "windowEnd t opts (s_start st) = s_start st + opt_size opts"
      using windowEnd_bounds(4) [OF sz s0 ns nw] .
    have nf: "\<not> windowEnd t opts (s_start st) - opt_overlap opts \<le> s_start st"
      using w lt by simp
    have a: "s_start (splitStep t opts st) = s_start st + d"
      using nf w by (simp add: splitStep_fields(2) d_def)
    have b: "s_forced (splitStep t opts st) = 0"
      using nf i by (simp add: splitStep_fields(3))
    have c: "s_iterations (splitStep t opts st) = s_iterations st + 1"
      by (simp add: splitStep_fields(1))
    from i have e: "s_start st = s_iterations st * d" by simp
    have "s_start st + d = (s_iterations st + 1) * d" by (simp add: e algebra_simps)
    moreover have "(s_iterations st + 1 - 1) * d < int (length t)" using g e by simp
    ultimately
    show "s_forced (splitStep t opts st) = 0 \<and> 0 \<le> s_start (splitStep t opts st)
      \<and> s_start (splitStep t opts st) = s_iterations (splitStep t opts st) * d
      \<and> (s_iterations (splitStep t opts st) = 0
          \<or> (s_iterations (splitStep t opts st) - 1) * d < int (length t))"
      using s0 d1 by (simp add: a b c)
  qed
  have m: "maxIterations t opts = \<lceil>real (length t) / real_of_int d\<rceil> + 100"
    using d1 by (simp add: maxIterations_def d_def max_def)
  have "s_iterations (splitRun t opts) < maxIterations t opts"
  proof (cases "s_iterations (splitRun t opts) = 0")
    case True
    with maxIterations_ge [of t opts] show ?thesis by simp
  next
    case False
    with inv have l: "(s_iterations (splitRun t opts) - 1) * d < int (length t)" by simp
    then have "real_of_int ((s_iterations (splitRun t opts) - 1) * d) < real (length t)"
      by linarith
    then have "real_of_int (s_iterations (splitRun t opts) - 1) * real_of_int d < real (length t)"
      by simp
    with d1 have "real_of_int (s_iterations (splitRun t opts) - 1) < real (length t) / real_of_int d"
      by (simp add: pos_less_divide_eq)
    then have "s_iterations (splitRun t opts) - 1 < \<lceil>real (length t) / real_of_int d\<rceil>"
      by (simp add: less_ceiling_iff)
    then show ?thesis by (simp add: m)
  qed
  with inv show ?thesis by simp
qed

text \<open>
  Claim C3, as the code has it.  For a valid configuration, when the splitter returns
  and no forced advance happened during the run, the returned chunks are the slices of
  the recorded ranges, and every position of the text lies in one of these ranges or
  holds a whitespace character (a window that is all whitespace is not emitted).  By
  lemma \<open>splitRun_plain\<close> both conditions hold for every text when neither
  \<open>preserveWords\<close> nor \<open>preserveSentences\<close> is set.
\<close>

theorem splitText_coverage:
  "0 < opt_size opts \<Longrightarrow> 0 \<le> opt_overlap opts \<Longrightarrow> opt_overlap opts < opt_size opts \<Longrightarrow>
   s_iterations (splitRun t opts) < maxIterations t opts \<Longrightarrow>
   s_forced (splitRun t opts) = 0 \<Longrightarrow> i < length t \<Longrightarrow>
     splitText t opts = Inr (map (\<lambda>(a, b). slice t a b) (s_spans (splitRun t opts)))
     \<and> (covered (s_spans (splitRun t opts)) (int i) \<or> isWhitespace (t ! i))"
proof -
  assume v: "0 < opt_size opts" "0 \<le> opt_overlap opts" "opt_overlap opts < opt_size opts"
    and r: "s_iterations (splitRun t opts) < maxIterations t opts"
    and f: "s_forced (splitRun t opts) = 0" and i: "i < length t"
  note inv = splitRun_coverage_inv [OF v(1) v(2), of t]
  from splitRun_counters [of t opts]
  have fl: "filter (\<lambda>c. length (trim c) > 0) (s_chunks (splitRun t opts)) = s_chunks (splitRun t opts)"
    by (simp add: filter_id_conv)
  have ex: "int (length t) \<le> s_start (splitRun t opts)
      \<or> maxIterations t opts \<le> s_iterations (splitRun t opts)"
    unfolding splitRun_def by (rule splitLoop_exit)
  with r have e: "int (length t) \<le> s_start (splitRun t opts)" by simp
  with i have "int i < s_start (splitRun t opts)" by simp
  with inv f i have c: "covered (s_spans (splitRun t opts)) (int i) \<or> isWhitespace (t ! i)"
    by blast
  have "splitText t opts = Inr (s_chunks (splitRun t opts))"
    using v r fl by (simp add: splitText_def Let_def)
  with inv c show ?thesis by simp
qed

lemma word_step1:
  "splitStep ''a bcdefghi'' ex_wordOpts
     \<lparr> s_chunks = [], s_spans = [], s_start = 0, s_iterations = 0,
       s_forced = 0 \<rparr>
   = \<lparr> s_chunks = [''a''], s_spans = [(0, 1)], s_start = 3, s_iterations = 1,
       s_forced = 1 \<rparr>"
  apply (simp add: splitStep_def ex_wordOpts_def window_eval)
  apply (simp add: slice_def sliceIndex_def)
  apply (simp add: trim_def isWhitespace_def)
  done

lemma word_step2:
  "splitStep ''a bcdefghi'' ex_wordOpts
     \<lparr> s_chunks = [''a''], s_spans = [(0, 1)], s_start = 3, s_iterations = 1,
       s_forced = 1 \<rparr>
   = \<lparr> s_chunks = [''a'', ''cdefgh''], s_spans = [(0, 1), (3, 9)], s_start = 6, s_iterations = 2,
       s_forced = 1 \<rparr>"
  apply (simp add: splitStep_def ex_wordOpts_def window_eval)
  apply (simp add: slice_def sliceIndex_def)
  apply (simp add: trim_def isWhitespace_def)
  done

lemma word_step3:
  "splitStep ''a bcdefghi'' ex_wordOpts
     \<lparr> s_chunks = [''a'', ''cdefgh''], s_spans = [(0, 1), (3, 9)], s_start = 6, s_iterations = 2,
       s_forced = 1 \<rparr>
   = \<lparr> s_chunks = [''a'', ''cdefgh'', ''fghi''], s_spans = [(0, 1), (3, 9), (6, 12)], s_start = 9, s_iterations = 3,
       s_forced = 1 \<rparr>"
  apply (simp add: splitStep_def ex_wordOpts_def window_eval)
  apply (simp add: slice_def sliceIndex_def)
  apply (simp add: trim_def isWhitespace_def)
  done

lemma word_step4:
  "splitStep ''a bcdefghi'' ex_wordOpts
     \<lparr> s_chunks = [''a'', ''cdefgh'', ''fghi''], s_spans = [(0, 1), (3, 9), (6, 12)], s_start = 9, s_iterations = 3,
       s_forced = 1 \<rparr>
   = \<lparr> s_chunks = [''a'', ''cdefgh'', ''fghi'', ''i''], s_spans = [(0, 1), (3, 9), (6, 12), (9, 15)], s_start = 12, s_iterations = 4,
       s_forced = 1 \<rparr>"
  apply (simp add: splitStep_def ex_wordOpts_def window_eval)
  apply (simp add: slice_def sliceIndex_def)
  apply (simp add: trim_def isWhitespace_def)
  done

lemma word_maxIterations: "maxIterations ''a bcdefghi'' ex_wordOpts = 104"
  by (simp add: maxIterations_def ex_wordOpts_def)

lemma word_run:
  "splitRun ''a bcdefghi'' ex_wordOpts
   = \<lparr> s_chunks = [''a'', ''cdefgh'', ''fghi'', ''i''], s_spans = [(0, 1), (3, 9), (6, 12), (9, 15)], s_start = 12, s_iterations = 4,
       s_forced = 1 \<rparr>"
  unfolding splitRun_def word_maxIterations splitInit_def
  apply (subst splitLoop_unroll [OF _ _ word_step1], simp, simp)
  apply (subst splitLoop_unroll [OF _ _ word_step2], simp, simp)
  apply (subst splitLoop_unroll [OF _ _ word_step3], simp, simp)
  apply (subst splitLoop_unroll [OF _ _ word_step4], simp, simp)
  apply simp
  done

lemma plain_step1:
  "splitStep ''ab   cd'' ex_plainOpts
     \<lparr> s_chunks = [], s_spans = [], s_start = 0, s_iterations = 0,
       s_forced = 0 \<rparr>
   = \<lparr> s_chunks = [''ab ''], s_spans = [(0, 3)], s_start = 2, s_iterations = 1,
       s_forced = 0 \<rparr>"
  apply (simp add: splitStep_def ex_plainOpts_def window_eval)
  apply (simp add: slice_def sliceIndex_def)
  apply (simp add: trim_def isWhitespace_def)
  done

lemma plain_step2:
  "splitStep ''ab   cd'' ex_plainOpts
     \<lparr> s_chunks = [''ab ''], s_spans = [(0, 3)], s_start = 2, s_iterations = 1,
       s_forced = 0 \<rparr>
   = \<lparr> s_chunks = [''ab ''], s_spans = [(0, 3)], s_start = 4, s_iterations = 2,
       s_forced = 0 \<rparr>"
  apply (simp add: splitStep_def ex_plainOpts_def window_eval)
  apply (simp add: slice_def sliceIndex_def)
  apply (simp add: trim_def isWhitespace_def)
  done

lemma plain_step3:
  "splitStep ''ab   cd'' ex_plainOpts
     \<lparr> s_chunks = [''ab ''], s_spans = [(0, 3)], s_start = 4, s_iterations = 2,
       s_forced = 0 \<rparr>
   = \<lparr> s_chunks = [''ab '', '' cd''], s_spans = [(0, 3), (4, 7)], s_start = 6, s_iterations = 3,
       s_forced = 0 \<rparr>"
  apply (simp add: splitStep_def ex_plainOpts_def window_eval)
  apply (simp add: slice_def sliceIndex_def)
  apply (simp add: trim_def isWhitespace_def)
  done

lemma plain_step4:
  "splitStep ''ab   cd'' ex_plainOpts
     \<lparr> s_chunks = [''ab '', '' cd''], s_spans = [(0, 3), (4, 7)], s_start = 6, s_iterations = 3,
       s_forced = 0 \<rparr>
   = \<lparr> s_chunks = [''ab '', '' cd'', ''d''], s_spans = [(0, 3), (4, 7), (6, 9)], s_start = 8, s_iterations = 4,
       s_forced = 0 \<rparr>"
  apply (simp add: splitStep_def ex_plainOpts_def window_eval)
  apply (simp add: slice_def sliceIndex_def)
  apply (simp add: trim_def isWhitespace_def)
  done

lemma plain_maxIterations: "maxIterations ''ab   cd'' ex_plainOpts = 104"
  by (simp add: maxIterations_def ex_plainOpts_def)

lemma plain_run:
  "splitRun ''ab   cd'' ex_plainOpts
   = \<lparr> s_chunks = [''ab '', '' cd'', ''d''], s_spans = [(0, 3), (4, 7), (6, 9)], s_start = 8, s_iterations = 4,
       s_forced = 0 \<rparr>"
  unfolding splitRun_def plain_maxIterations splitInit_def
  apply (subst splitLoop_unroll [OF _ _ plain_step1], simp, simp)
  apply (subst splitLoop_unroll [OF _ _ plain_step2], simp, simp)
  apply (subst splitLoop_unroll [OF _ _ plain_step3], simp, simp)
  apply (subst splitLoop_unroll [OF _ _ plain_step4], simp, simp)
  apply simp
  done

text \<open>
  With size 3 and overlap 1 the text \<open>''ab   cd''\<close> is split into the ranges
  \<open>[0,3)\<close>, \<open>[4,7)\<close> and \<open>[6,9)\<close>; the window \<open>[2,5)\<close> is all whitespace and is
  dropped, so position 3 is in no range, and it holds a space.
\<close>

theorem splitText_coverage_witness:
  "0 < opt_size ex_plainOpts \<and> 0 \<le> opt_overlap ex_plainOpts
   \<and> opt_overlap ex_plainOpts < opt_size ex_plainOpts
   \<and> s_iterations (splitRun ''ab   cd'' ex_plainOpts) < maxIterations ''ab   cd'' ex_plainOpts
   \<and> s_forced (splitRun ''ab   cd'' ex_plainOpts) = 0
   \<and> splitText ''ab   cd'' ex_plainOpts = Inr [''ab '', '' cd'', ''d'']
   \<and> covered (s_spans (splitRun ''ab   cd'' ex_plainOpts)) 5
   \<and> \<not> covered (s_spans (splitRun ''ab   cd'' ex_plainOpts)) 3
   \<and> isWhitespace (''ab   cd'' ! 3)"
proof -
  have v: "0 < opt_size ex_plainOpts" "0 \<le> opt_overlap ex_plainOpts"
    "opt_overlap ex_plainOpts < opt_size ex_plainOpts"
    by (simp_all add: ex_plainOpts_def)
  have r: "s_iterations (splitRun ''ab   cd'' ex_plainOpts) < maxIterations ''ab   cd'' ex_plainOpts"
    by (simp add: plain_run plain_maxIterations)
  have f: "s_forced (splitRun ''ab   cd'' ex_plainOpts) = 0"
    by (simp add: plain_run)
  have sp: "s_spans (splitRun ''ab   cd'' ex_plainOpts) = [(0, 3), (4, 7), (6, 9)]"
    by (simp add: plain_run)
  have n3: "\<not> covered (s_spans (splitRun ''ab   cd'' ex_plainOpts)) 3"
    unfolding sp by (simp add: covered_def)
  have sl: "map (\<lambda>(a, b). slice ''ab   cd'' a b) [(0, 3), (4, 7), (6, 9)] = [''ab '', '' cd'', ''d'']"
    by (simp add: slice_def sliceIndex_def)
  have i5: "5 < length ''ab   cd''" and i3: "3 < length ''ab   cd''" by simp_all
  from splitText_coverage [OF v r f i5]
  have a: "splitText ''ab   cd'' ex_plainOpts = Inr [''ab '', '' cd'', ''d'']"
    unfolding sp sl by simp
  have c5: "covered (s_spans (splitRun ''ab   cd'' ex_plainOpts)) 5"
    unfolding sp by (simp add: covered_def)
  from splitText_coverage [OF v r f i3] n3
  have w3: "isWhitespace (''ab   cd'' ! 3)" by simp
  from v r f a c5 n3 w3 show ?thesis by simp
qed

text \<open>
  Claim C3 as stated fails.  With size 6, overlap 3 and word seeking, the first window
  of \<open>''a bcdefghi''\<close> is pulled back to the space at index 1; \<open>end - overlap\<close> is then
  negative, the forced advance moves \<open>start\<close> to 3, and the letter at index 2 is in no
  chunk.  Without boundary seeking, the all-whitespace window \<open>[2,5)\<close> of
  \<open>''ab   cd''\<close> is dropped and position 3 is in no chunk either.
\<close>

theorem splitText_gap_counterexample:
  "0 < opt_size ex_wordOpts \<and> 0 \<le> opt_overlap ex_wordOpts
   \<and> opt_overlap ex_wordOpts < opt_size ex_wordOpts
   \<and> splitText ''a bcdefghi'' ex_wordOpts = Inr [''a'', ''cdefgh'', ''fghi'', ''i'']
   \<and> s_spans (splitRun ''a bcdefghi'' ex_wordOpts) = [(0, 1), (3, 9), (6, 12), (9, 15)]
   \<and> \<not> covered (s_spans (splitRun ''a bcdefghi'' ex_wordOpts)) 2
   \<and> ''a bcdefghi'' ! 2 = CHR ''b''
   \<and> splitText ''ab   cd'' ex_plainOpts = Inr [''ab '', '' cd'', ''d'']
   \<and> \<not> covered (s_spans (splitRun ''ab   cd'' ex_plainOpts)) 3"
proof -
  have p1: "length (trim ''ab '') > 0" by (simp add: trim_def isWhitespace_def)
  have p2: "length (trim '' cd'') > 0" by (simp add: trim_def isWhitespace_def)
  have p3: "length (trim ''d'') > 0" by (simp add: trim_def isWhitespace_def)
  have b: "splitText ''ab   cd'' ex_plainOpts = Inr [''ab '', '' cd'', ''d'']"
    unfolding splitText_def plain_run plain_maxIterations Let_def
    using p1 p2 p3 by (simp add: ex_plainOpts_def)
  have m: "\<not> covered (s_spans (splitRun ''ab   cd'' ex_plainOpts)) 3"
    by (simp add: plain_run covered_def)
  have t1: "length (trim ''a'') > 0" by (simp add: trim_def isWhitespace_def)
  have t2: "length (trim ''cdefgh'') > 0" by (simp add: trim_def isWhitespace_def)
  have t3: "length (trim ''fghi'') > 0" by (simp add: trim_def isWhitespace_def)
  have t4: "length (trim ''i'') > 0" by (simp add: trim_def isWhitespace_def)
  have a: "splitText ''a bcdefghi'' ex_wordOpts = Inr [''a'', ''cdefgh'', ''fghi'', ''i'']"
    unfolding splitText_def word_run word_maxIterations Let_def
    using t1 t2 t3 t4 by (simp add: ex_wordOpts_def)
  have sp: "s_spans (splitRun ''a bcdefghi'' ex_wordOpts) = [(0, 1), (3, 9), (6, 12), (9, 15)]"
    by (simp add: word_run)
  have n: "\<not> covered (s_spans (splitRun ''a bcdefghi'' ex_wordOpts)) 2"
    unfolding sp by (simp add: covered_def)
  from a sp n b m show ?thesis by (simp add: ex_wordOpts_def)
qed

end
